theory Spec2Isabelle
  imports Complex_Main "HOL-Library.Multiset"
begin

section \<open>JavaScript values as the DataTable component meets them\<close>

text \<open>
  The component \<^verbatim>\<open>DataTable<T extends Record<string, any>>\<close> reads field values of
  type \<^verbatim>\<open>any\<close> and compares them with the operators \<^verbatim>\<open><\<close> and \<^verbatim>\<open>>\<close>.
  A number is an IEEE double: a finite double is represented by the real number it
  denotes (the comparison of two finite doubles is the comparison of these reals, and
  \<^verbatim>\<open>+0\<close> and \<^verbatim>\<open>-0\<close> are not distinguished by \<^verbatim>\<open><\<close>).
\<close>

datatype jsnum = NaN | NegInfinity | Finite real | PosInfinity

text \<open>Primitive values. Symbols and BigInts are left out.\<close>

datatype prim = Undefined | Null | Bool bool | Num jsnum | Str string

text \<open>
  A value is a primitive or an object (a React element, an array, a Date ...). The
  relational operators see an object only through its conversion to a primitive, so an
  object is represented by the primitive that \<^verbatim>\<open>ToPrimitive(o, number)\<close> returns
  (\<^verbatim>\<open>"[object Object]"\<close> for a React element). Objects whose conversion throws are left
  out.
\<close>

datatype jsval = Prim prim | Obj prim

fun ToPrimitive :: "jsval \<Rightarrow> prim" where
  "ToPrimitive (Prim p) = p"
| "ToPrimitive (Obj p) = p"

text \<open>\<^verbatim>\<open>typeof v === "string"\<close>\<close>

fun typeof_string :: "jsval \<Rightarrow> bool" where
  "typeof_string (Prim (Str s)) = True"
| "typeof_string v = False"

text \<open>
  A row is a record of named fields; reading a field the row does not have gives
  \<^verbatim>\<open>undefined\<close>. The fields of a row are all the properties that a read of the row
  reaches: a property that the row inherits (\<^verbatim>\<open>constructor\<close>, \<^verbatim>\<open>toString\<close> of a plain
  object) is a field of the row like its own. A row is taken by its fields: two rows
  with the same fields are the same row.
\<close>

type_synonym row = "(string \<times> jsval) list"

definition getField :: "row \<Rightarrow> string \<Rightarrow> jsval" where
  "getField r k = (case map_of r k of None \<Rightarrow> Prim Undefined | Some v \<Rightarrow> v)"

text \<open>
  Two operations belong to the host (the JavaScript engine) and are parameters of
  everything below: \<^verbatim>\<open>StringToNumber\<close>, the conversion of a string to a number (the
  numeric-literal grammar and the rounding to a double), and \<^verbatim>\<open>Array.prototype.sort\<close>
  on an array of rows, as the function from the comparator and the elements to the
  elements in their new order.
\<close>

record host =
  StringToNumber :: "string \<Rightarrow> jsnum"
  Array_sort :: "(row \<Rightarrow> row \<Rightarrow> int) \<Rightarrow> row list \<Rightarrow> row list"

text \<open>\<^verbatim>\<open>ToNumber\<close> on a primitive.\<close>

fun ToNumber :: "host \<Rightarrow> prim \<Rightarrow> jsnum" where
  "ToNumber H Undefined = NaN"
| "ToNumber H Null = Finite 0"
| "ToNumber H (Bool b) = Finite (if b then 1 else 0)"
| "ToNumber H (Num n) = n"
| "ToNumber H (Str s) = StringToNumber H s"

text \<open>\<^verbatim>\<open>Number::lessThan\<close>, with its result \<^verbatim>\<open>undefined\<close> (a NaN operand) read as false.\<close>

fun num_lt :: "jsnum \<Rightarrow> jsnum \<Rightarrow> bool" where
  "num_lt NaN y = False"
| "num_lt x NaN = False"
| "num_lt (Finite a) (Finite b) = (a < b)"
| "num_lt NegInfinity NegInfinity = False"
| "num_lt NegInfinity y = True"
| "num_lt x NegInfinity = False"
| "num_lt PosInfinity y = False"
| "num_lt x PosInfinity = True"

text \<open>
  Strings are sequences of code units; the model has the code units below 256.
  Two strings are compared code unit by code unit, a proper prefix being smaller.
\<close>

fun str_lt :: "string \<Rightarrow> string \<Rightarrow> bool" where
  "str_lt [] [] = False"
| "str_lt [] (y # ys) = True"
| "str_lt (x # xs) [] = False"
| "str_lt (x # xs) (y # ys) =
     (if (of_char x :: nat) < of_char y then True
      else if (of_char y :: nat) < of_char x then False
      else str_lt xs ys)"

text \<open>\<^verbatim>\<open>a < b\<close>: both operands strings after \<^verbatim>\<open>ToPrimitive\<close>, or both converted to numbers.\<close>

definition js_lt :: "host \<Rightarrow> jsval \<Rightarrow> jsval \<Rightarrow> bool" where
  "js_lt H a b =
     (case (ToPrimitive a, ToPrimitive b) of
        (Str s, Str t) \<Rightarrow> str_lt s t
      | (pa, pb) \<Rightarrow> num_lt (ToNumber H pa) (ToNumber H pb))"

text \<open>\<^verbatim>\<open>a > b\<close> is \<^verbatim>\<open>b < a\<close> with the operands evaluated left first.\<close>

definition js_gt :: "host \<Rightarrow> jsval \<Rightarrow> jsval \<Rightarrow> bool" where
  "js_gt H a b = js_lt H b a"

text \<open>
  \<^verbatim>\<open>String.prototype.toLowerCase\<close> on the code units below 256: \<^verbatim>\<open>A\<close>-\<^verbatim>\<open>Z\<close> and the
  capital letters U+00C0 to U+00DE (U+00D7, the multiplication sign, is no letter) move
  up by 32; every other code unit is its own lower case.
\<close>

definition lower_char :: "char \<Rightarrow> char" where
  "lower_char c =
     (let n = (of_char c :: nat)
      in if (65 \<le> n \<and> n \<le> 90) \<or> (192 \<le> n \<and> n \<le> 222 \<and> n \<noteq> 215)
         then char_of (n + 32) else c)"

definition toLowerCase :: "string \<Rightarrow> string" where
  "toLowerCase s = map lower_char s"

fun toLowerCase_val :: "jsval \<Rightarrow> jsval" where
  "toLowerCase_val (Prim (Str s)) = Prim (Str (toLowerCase s))"
| "toLowerCase_val v = v"

section \<open>Columns\<close>

datatype alignment = AlignLeft | AlignCenter | AlignRight

text \<open>\<^verbatim>\<open>interface Column<T>\<close>; an optional member that is absent is \<open>None\<close>.\<close>

record column =
  key :: string
  header :: string
  accessor :: "(row \<Rightarrow> jsval) option"
  sortable :: "bool option"
  width :: "string option"
  align :: "alignment option"

text \<open>\<^verbatim>\<open>type SortDirection = "asc" | "desc" | null\<close>, \<^verbatim>\<open>null\<close> being \<open>None\<close>.\<close>

datatype SortDirection = Asc | Desc

section \<open>The sort engine\<close>

text \<open>
  The stable insertion sort by a comparator, used by its sign: an element moves past
  exactly the elements that the comparator puts strictly before it.
\<close>

fun sort_insert :: "('a \<Rightarrow> 'a \<Rightarrow> int) \<Rightarrow> 'a \<Rightarrow> 'a list \<Rightarrow> 'a list" where
  "sort_insert cmp x [] = [x]"
| "sort_insert cmp x (y # ys) =
     (if 0 < cmp x y then y # sort_insert cmp x ys else x # y # ys)"

fun stable_sort :: "('a \<Rightarrow> 'a \<Rightarrow> int) \<Rightarrow> 'a list \<Rightarrow> 'a list" where
  "stable_sort cmp [] = []"
| "stable_sort cmp (x # xs) = sort_insert cmp x (stable_sort cmp xs)"

text \<open>
  A consistent comparator for the elements of a list, as ECMAScript defines it for
  \<^verbatim>\<open>Array.prototype.sort\<close>: comparing an element with itself gives 0, comparing equal is
  symmetric, and comparing equal, less and greater are transitive.
\<close>

definition consistent :: "('a \<Rightarrow> 'a \<Rightarrow> int) \<Rightarrow> 'a list \<Rightarrow> bool" where
  "consistent cmp xs \<longleftrightarrow>
     (\<forall>a \<in> set xs. cmp a a = 0) \<and>
     (\<forall>a \<in> set xs. \<forall>b \<in> set xs. cmp a b = 0 \<longrightarrow> cmp b a = 0) \<and>
     (\<forall>a \<in> set xs. \<forall>b \<in> set xs. \<forall>c \<in> set xs.
        cmp a b = 0 \<and> cmp b c = 0 \<longrightarrow> cmp a c = 0) \<and>
     (\<forall>a \<in> set xs. \<forall>b \<in> set xs. \<forall>c \<in> set xs.
        cmp a b < 0 \<and> cmp b c < 0 \<longrightarrow> cmp a c < 0) \<and>
     (\<forall>a \<in> set xs. \<forall>b \<in> set xs. \<forall>c \<in> set xs.
        0 < cmp a b \<and> 0 < cmp b c \<longrightarrow> 0 < cmp a c)"

text \<open>
  What ECMAScript requires of the host's \<^verbatim>\<open>sort\<close>: the result has the elements of the
  array, each as often as the array has it; and when the comparator is consistent for
  them, the result is in the order of the comparator with elements that compare equal in
  their original order, which is the result of the stable insertion sort. When the
  comparator is not consistent the order is left to the implementation.
\<close>

definition host_ok :: "host \<Rightarrow> bool" where
  "host_ok H \<longleftrightarrow>
     (\<forall>cmp xs. mset (Array_sort H cmp xs) = mset xs) \<and>
     (\<forall>cmp xs. consistent cmp xs \<longrightarrow> Array_sort H cmp xs = stable_sort cmp xs)"

subsection \<open>A sort by binary insertion\<close>

text \<open>
  The sort that V8 runs on an array of fewer than 64 elements (\<^verbatim>\<open>ArrayTimSort\<close> with a
  single run): the longest run at the start of the array that never descends, or that
  strictly descends and is then reversed, is taken as sorted, and each later element is
  inserted into it at the place a binary search finds.
\<close>

fun run_ascending :: "('a \<Rightarrow> 'a \<Rightarrow> int) \<Rightarrow> 'a \<Rightarrow> 'a list \<Rightarrow> 'a list \<times> 'a list" where
  "run_ascending cmp previous [] = ([], [])"
| "run_ascending cmp previous (x # xs) =
     (if cmp x previous < 0 then ([], x # xs)
      else (case run_ascending cmp x xs of (r, rest) \<Rightarrow> (x # r, rest)))"

fun run_descending :: "('a \<Rightarrow> 'a \<Rightarrow> int) \<Rightarrow> 'a \<Rightarrow> 'a list \<Rightarrow> 'a list \<times> 'a list" where
  "run_descending cmp previous [] = ([], [])"
| "run_descending cmp previous (x # xs) =
     (if 0 \<le> cmp x previous then ([], x # xs)
      else (case run_descending cmp x xs of (r, rest) \<Rightarrow> (x # r, rest)))"

fun CountAndMakeRun :: "('a \<Rightarrow> 'a \<Rightarrow> int) \<Rightarrow> 'a list \<Rightarrow> 'a list \<times> 'a list" where
  "CountAndMakeRun cmp [] = ([], [])"
| "CountAndMakeRun cmp [x] = ([x], [])"
| "CountAndMakeRun cmp (x # y # zs) =
     (if cmp y x < 0
      then (case run_descending cmp y zs of (r, rest) \<Rightarrow> (rev (x # y # r), rest))
      else (case run_ascending cmp y zs of (r, rest) \<Rightarrow> (x # y # r, rest)))"

text \<open>
  The place of the pivot among the sorted elements \<open>arr\<close>: the search keeps the place
  between \<open>left\<close> and \<open>right\<close>, halving the distance with one comparison.
\<close>

function binary_search ::
  "('a \<Rightarrow> 'a \<Rightarrow> int) \<Rightarrow> 'a \<Rightarrow> 'a list \<Rightarrow> nat \<Rightarrow> nat \<Rightarrow> nat" where
  "binary_search cmp pivot arr left right =
     (if left < right then
        (let mid = left + (right - left) div 2
         in if cmp pivot (arr ! mid) < 0 then binary_search cmp pivot arr left mid
            else binary_search cmp pivot arr (mid + 1) right)
      else left)"
  by pat_completeness auto
termination
  by (relation "measure (\<lambda>(cmp, pivot, arr, left, right). right - left)") auto

declare binary_search.simps [simp del]

definition binary_insert :: "('a \<Rightarrow> 'a \<Rightarrow> int) \<Rightarrow> 'a list \<Rightarrow> 'a \<Rightarrow> 'a list" where
  "binary_insert cmp arr pivot =
     (let left = binary_search cmp pivot arr 0 (length arr)
      in take left arr @ pivot # drop left arr)"

definition binary_insertion_sort :: "('a \<Rightarrow> 'a \<Rightarrow> int) \<Rightarrow> 'a list \<Rightarrow> 'a list" where
  "binary_insertion_sort cmp xs =
     (case CountAndMakeRun cmp xs of (r, rest) \<Rightarrow> foldl (binary_insert cmp) r rest)"

subsection \<open>The comparator and the view\<close>

text \<open>
  The value the comparator extracts from a row: \<^verbatim>\<open>column.accessor(a)\<close> when the column
  was found and has an accessor, \<^verbatim>\<open>a[sortColumn]\<close> otherwise.
\<close>

definition sortValue :: "column option \<Rightarrow> string \<Rightarrow> row \<Rightarrow> jsval" where
  "sortValue col sortColumn r =
     (case col of
        None \<Rightarrow> getField r sortColumn
      | Some c \<Rightarrow> (case accessor c of
                    Some f \<Rightarrow> f r
                  | None \<Rightarrow> getField r sortColumn))"

text \<open>\<^verbatim>\<open>columns.find((col) => col.key === sortColumn)\<close>\<close>

definition findColumn :: "column list \<Rightarrow> string \<Rightarrow> column option" where
  "findColumn cols sortColumn = find (\<lambda>c. key c = sortColumn) cols"

text \<open>The comparator passed to \<^verbatim>\<open>sort\<close> inside \<^verbatim>\<open>sortedData\<close>.\<close>

definition compareFn ::
  "host \<Rightarrow> column list \<Rightarrow> string \<Rightarrow> SortDirection \<Rightarrow> row \<Rightarrow> row \<Rightarrow> int" where
  "compareFn H cols sortColumn sortDirection a b =
     (let col = findColumn cols sortColumn;
          aValue = sortValue col sortColumn a;
          bValue = sortValue col sortColumn b;
          strings = (typeof_string aValue \<and> typeof_string bValue);
          aValue = (if strings then toLowerCase_val aValue else aValue);
          bValue = (if strings then toLowerCase_val bValue else bValue)
      in if js_lt H aValue bValue then (if sortDirection = Asc then - 1 else 1)
         else if js_gt H aValue bValue then (if sortDirection = Asc then 1 else - 1)
         else 0)"

text \<open>
  \<^verbatim>\<open>sortedData\<close>: the data itself when \<^verbatim>\<open>!sortColumn || !sortDirection\<close> (a \<^verbatim>\<open>null\<close> or
  empty column key, a \<^verbatim>\<open>null\<close> direction), the sorted copy otherwise.
\<close>

definition sortedData ::
  "host \<Rightarrow> row list \<Rightarrow> column list \<Rightarrow> string option \<Rightarrow> SortDirection option
     \<Rightarrow> row list" where
  "sortedData H dat cols sortColumn sortDirection =
     (case sortColumn of
        None \<Rightarrow> dat
      | Some k \<Rightarrow>
          (case sortDirection of
             None \<Rightarrow> dat
           | Some d \<Rightarrow> if k = [] then dat else Array_sort H (compareFn H cols k d) dat))"

subsection \<open>The same computation on a store of arrays\<close>

text \<open>
  Arrays are objects: \<^verbatim>\<open>sort\<close> reorders the array it is called on and returns it, and
  \<^verbatim>\<open>[...data]\<close> allocates a new array. A store holds the arrays, an address is an index
  into it.
\<close>

type_synonym store = "row list list"

definition spread :: "store \<Rightarrow> nat \<Rightarrow> store \<times> nat" where
  "spread h a = (h @ [h ! a], length h)"

definition sort_in_place ::
  "host \<Rightarrow> (row \<Rightarrow> row \<Rightarrow> int) \<Rightarrow> store \<Rightarrow> nat \<Rightarrow> store \<times> nat" where
  "sort_in_place H cmp h a = (h[a := Array_sort H cmp (h ! a)], a)"

definition sortedData_store ::
  "host \<Rightarrow> store \<Rightarrow> nat \<Rightarrow> column list \<Rightarrow> string option \<Rightarrow> SortDirection option
     \<Rightarrow> store \<times> nat" where
  "sortedData_store H h dat cols sortColumn sortDirection =
     (case sortColumn of
        None \<Rightarrow> (h, dat)
      | Some k \<Rightarrow>
          (case sortDirection of
             None \<Rightarrow> (h, dat)
           | Some d \<Rightarrow>
               if k = [] then (h, dat)
               else (let (h1, copy) = spread h dat
                     in sort_in_place H (compareFn H cols k d) h1 copy)))"

section \<open>The component: props, state, handlers\<close>

text \<open>
  \<^verbatim>\<open>DataTableProps<T>\<close>. A member with a default (\<^verbatim>\<open>loading\<close>, \<^verbatim>\<open>selectable\<close>, the two
  messages) holds its value after the default was applied. The callback \<^verbatim>\<open>onRowSelect\<close>
  is optional; \<open>'e\<close> is what a call of it does, as a value. The array it is called with
  can hold \<^verbatim>\<open>undefined\<close> (\<open>None\<close>) where a selected position has no row.
\<close>

record 'e props =
  data :: "row list"
  columns :: "column list"
  loading :: bool
  selectable :: bool
  onRowSelect :: "(row option list \<Rightarrow> 'e) option"
  className :: "string option"
  emptyMessage :: string
  loadingMessage :: string

text \<open>
  The three \<^verbatim>\<open>useState\<close> cells. A \<^verbatim>\<open>Set<number>\<close> keeps its elements in insertion
  order: it is a list without repetition.
\<close>

record table_state =
  selectedRows :: "nat list"
  sortColumn :: "string option"
  sortDirection :: "SortDirection option"

definition initial_state :: table_state where
  "initial_state = \<lparr>selectedRows = [], sortColumn = None, sortDirection = None\<rparr>"

text \<open>\<^verbatim>\<open>Set.prototype.add\<close>, \<^verbatim>\<open>Set.prototype.delete\<close>, and \<^verbatim>\<open>size\<close> as the length.\<close>

definition Set_add :: "nat \<Rightarrow> nat list \<Rightarrow> nat list" where
  "Set_add i s = (if i \<in> set s then s else s @ [i])"

definition Set_delete :: "nat \<Rightarrow> nat list \<Rightarrow> nat list" where
  "Set_delete i s = filter (\<lambda>j. j \<noteq> i) s"

text \<open>\<^verbatim>\<open>new Set(iterable)\<close>\<close>

definition new_Set :: "nat list \<Rightarrow> nat list" where
  "new_Set xs = foldl (\<lambda>s i. Set_add i s) [] xs"

text \<open>\<^verbatim>\<open>xs[i]\<close>: \<^verbatim>\<open>undefined\<close> (\<open>None\<close>) out of range.\<close>

definition js_index :: "'a list \<Rightarrow> nat \<Rightarrow> 'a option" where
  "js_index xs i = (if i < length xs then Some (xs ! i) else None)"

text \<open>\<^verbatim>\<open>f?.(x)\<close>: the call when the function is there, nothing otherwise.\<close>

definition optional_call :: "('a \<Rightarrow> 'e) option \<Rightarrow> 'a \<Rightarrow> 'e option" where
  "optional_call f x = (case f of None \<Rightarrow> None | Some g \<Rightarrow> Some (g x))"

text \<open>The rows in display order, as the handlers of one render see them.\<close>

definition view :: "host \<Rightarrow> 'e props \<Rightarrow> table_state \<Rightarrow> row list" where
  "view H p s = sortedData H (data p) (columns p) (sortColumn s) (sortDirection s)"

definition handleSort :: "table_state \<Rightarrow> column \<Rightarrow> table_state" where
  "handleSort s c =
     (if sortable c \<noteq> Some True then s
      else if sortColumn s = Some (key c) then
        (if sortDirection s = Some Asc then s\<lparr>sortDirection := Some Desc\<rparr>
         else if sortDirection s = Some Desc then s\<lparr>sortDirection := None, sortColumn := None\<rparr>
         else s)
      else s\<lparr>sortColumn := Some (key c), sortDirection := Some Asc\<rparr>)"

text \<open>A handler returns the next state and the call of \<^verbatim>\<open>onRowSelect\<close> it made, if any.\<close>

definition handleRowSelect ::
  "host \<Rightarrow> 'e props \<Rightarrow> table_state \<Rightarrow> nat \<Rightarrow> bool \<Rightarrow> table_state \<times> 'e option" where
  "handleRowSelect H p s index checked =
     (let newSelectedRows =
            (if checked then Set_add index (selectedRows s)
             else Set_delete index (selectedRows s));
          selectedData = map (js_index (view H p s)) newSelectedRows
      in (s\<lparr>selectedRows := newSelectedRows\<rparr>, optional_call (onRowSelect p) selectedData))"

definition handleSelectAll ::
  "host \<Rightarrow> 'e props \<Rightarrow> table_state \<Rightarrow> bool \<Rightarrow> table_state \<times> 'e option" where
  "handleSelectAll H p s checked =
     (if checked then
        (let allIndices = new_Set [0 ..< length (view H p s)]
         in (s\<lparr>selectedRows := allIndices\<rparr>,
             optional_call (onRowSelect p) (map Some (view H p s))))
      else (s\<lparr>selectedRows := []\<rparr>, optional_call (onRowSelect p) []))"

definition isAllSelected :: "host \<Rightarrow> 'e props \<Rightarrow> table_state \<Rightarrow> bool" where
  "isAllSelected H p s =
     (0 < length (selectedRows s) \<and> length (selectedRows s) = length (view H p s))"

definition isIndeterminate :: "host \<Rightarrow> 'e props \<Rightarrow> table_state \<Rightarrow> bool" where
  "isIndeterminate H p s =
     (0 < length (selectedRows s) \<and> length (selectedRows s) < length (view H p s))"

text \<open>
  What the component returns: the loading box, the empty box, or the table (the only
  one of the three with headers and checkboxes).
\<close>

datatype presentation = Loading | Empty | Table

definition render_state :: "'e props \<Rightarrow> presentation" where
  "render_state p =
     (if loading p then Loading
      else if \<not> loading p \<and> length (data p) = 0 then Empty
      else Table)"

text \<open>
  What can happen to a mounted table: a click on a header, on a row's checkbox, on the
  select-all checkbox, and a render with new props (the state cells survive it).
\<close>

datatype 'e event =
    HeaderClick column
  | RowToggle nat bool
  | SelectAll bool
  | NewProps "'e props"

fun step ::
  "host \<Rightarrow> 'e props \<times> table_state \<Rightarrow> 'e event \<Rightarrow> 'e props \<times> table_state" where
  "step H (p, s) (HeaderClick c) = (p, handleSort s c)"
| "step H (p, s) (RowToggle i checked) = (p, fst (handleRowSelect H p s i checked))"
| "step H (p, s) (SelectAll checked) = (p, fst (handleSelectAll H p s checked))"
| "step H (p, s) (NewProps p') = (p', s)"

definition run ::
  "host \<Rightarrow> 'e props \<Rightarrow> 'e event list \<Rightarrow> 'e props \<times> table_state" where
  "run H p es = foldl (step H) (p, initial_state) es"

section \<open>Properties of states and runs\<close>

text \<open>The rows equal to one of two given rows.\<close>

definition is_either :: "row \<Rightarrow> row \<Rightarrow> row \<Rightarrow> bool" where
  "is_either a b r \<longleftrightarrow> r = a \<or> r = b"

text \<open>The rows from which the comparator extracts a given value.\<close>

definition has_sort_value :: "column list \<Rightarrow> string \<Rightarrow> jsval \<Rightarrow> row \<Rightarrow> bool" where
  "has_sort_value cols k v r \<longleftrightarrow> sortValue (findColumn cols k) k r = v"

text \<open>
  Columns of strings and columns of numbers: the extracted value is a number other than
  NaN; the string in lower case and the number that the comparator compares.
\<close>

fun is_ordered_number :: "jsval \<Rightarrow> bool" where
  "is_ordered_number (Prim (Num n)) = (n \<noteq> NaN)"
| "is_ordered_number v = False"

definition string_key :: "column list \<Rightarrow> string \<Rightarrow> row \<Rightarrow> string" where
  "string_key cols k r =
     (case sortValue (findColumn cols k) k r of Prim (Str x) \<Rightarrow> toLowerCase x | _ \<Rightarrow> [])"

definition number_key :: "column list \<Rightarrow> string \<Rightarrow> row \<Rightarrow> jsnum" where
  "number_key cols k r =
     (case sortValue (findColumn cols k) k r of Prim (Num n) \<Rightarrow> n | _ \<Rightarrow> NaN)"

text \<open>The sort column and the sort direction are both there or both absent.\<close>

definition sort_state_ok :: "table_state \<Rightarrow> bool" where
  "sort_state_ok s \<longleftrightarrow> (sortColumn s = None) = (sortDirection s = None)"




section \<open>The tables of the stories\<close>

text \<open>
  \<^verbatim>\<open>sampleUsers\<close> and \<^verbatim>\<open>userColumns\<close> of the DataTable stories, the column
  \<^verbatim>\<open>Contact\<close> of the story \<^verbatim>\<open>CustomRendering\<close> (no \<^verbatim>\<open>sortable\<close> member, an accessor that
  returns a React element), a table with the callback \<^verbatim>\<open>onRowSelect\<close> returning what it
  was called with, and the rows of the case-insensitivity example.
\<close>

definition user :: "real \<Rightarrow> string \<Rightarrow> string \<Rightarrow> string \<Rightarrow> string \<Rightarrow> string \<Rightarrow> row" where
  "user i n e r st j =
     [(''id'', Prim (Num (Finite i))), (''name'', Prim (Str n)), (''email'', Prim (Str e)),
      (''role'', Prim (Str r)), (''status'', Prim (Str st)), (''joinDate'', Prim (Str j))]"

definition john :: row where
  "john = user 1 ''John Doe'' ''john@example.com'' ''Admin'' ''active'' ''2023-01-15''"
definition jane :: row where
  "jane = user 2 ''Jane Smith'' ''jane@example.com'' ''User'' ''active'' ''2023-02-20''"
definition bob :: row where
  "bob = user 3 ''Bob Johnson'' ''bob@example.com'' ''Editor'' ''inactive'' ''2023-03-10''"
definition alice :: row where
  "alice = user 4 ''Alice Brown'' ''alice@example.com'' ''User'' ''active'' ''2023-04-05''"
definition charlie :: row where
  "charlie = user 5 ''Charlie Wilson'' ''charlie@example.com'' ''Admin'' ''active'' ''2023-05-12''"

definition sampleUsers :: "row list" where
  "sampleUsers = [john, jane, bob, alice, charlie]"

definition plain_column :: "string \<Rightarrow> string \<Rightarrow> column" where
  "plain_column k h =
     \<lparr>key = k, header = h, accessor = None, sortable = Some True, width = None, align = None\<rparr>"

definition react_element :: "row \<Rightarrow> jsval" where
  "react_element r = Obj (Str ''[object Object]'')"

definition contact_column :: column where
  "contact_column =
     \<lparr>key = ''email'', header = ''Contact'', accessor = Some react_element, sortable = None,
      width = None, align = None\<rparr>"

definition userColumns :: "column list" where
  "userColumns =
     [plain_column ''name'' ''Name'', plain_column ''email'' ''Email'',
      plain_column ''role'' ''Role'',
      \<lparr>key = ''status'', header = ''Status'', accessor = Some react_element,
       sortable = Some True, width = None, align = None\<rparr>,
      plain_column ''joinDate'' ''Join Date'']"

definition table_props :: "row list \<Rightarrow> column list \<Rightarrow> (row option list) props" where
  "table_props d cs =
     \<lparr>data = d, columns = cs, loading = False, selectable = True, onRowSelect = Some id,
      className = None, emptyMessage = ''No data available'', loadingMessage = ''Loading...''\<rparr>"

definition fruit :: "string \<Rightarrow> row" where
  "fruit n = [(''name'', Prim (Str n))]"

text \<open>
  A stock list in which one item has no \<^verbatim>\<open>stock\<close> field, and the column that reads the
  field.
\<close>

definition item :: "string \<Rightarrow> real \<Rightarrow> row" where
  "item n st = [(''name'', Prim (Str n)), (''stock'', Prim (Num (Finite st)))]"

definition glue :: row where
  "glue = [(''name'', Prim (Str ''Glue''))]"

definition stockList :: "row list" where
  "stockList =
     [item ''Pens'' 9, item ''Ink'' 10, item ''Paper'' 11, item ''Clips'' 12, glue,
      item ''Tape'' 5, item ''Pins'' 6, item ''Tags'' 5]"

definition stockColumns :: "column list" where
  "stockColumns = [plain_column ''name'' ''Product'', plain_column ''stock'' ''Stock'']"

text \<open>
  Two hosts for the examples. None of the examples converts a string to a number. The
  first host sorts by stable insertion, the second by binary insertion.
\<close>

definition tn_NaN :: "string \<Rightarrow> jsnum" where
  "tn_NaN s = NaN"

definition insertion_host :: host where
  "insertion_host = \<lparr>StringToNumber = tn_NaN, Array_sort = stable_sort\<rparr>"

definition binary_insertion_host :: host where
  "binary_insertion_host = \<lparr>StringToNumber = tn_NaN, Array_sort = binary_insertion_sort\<rparr>"

section \<open>Facts about the sort\<close>

lemma mset_sort_insert: "mset (sort_insert cmp x ys) = add_mset x (mset ys)"
  by (induction ys) auto

lemma mset_stable_sort: "mset (stable_sort cmp xs) = mset xs"
  by (induction xs) (auto simp: mset_sort_insert)

lemma length_stable_sort: "length (stable_sort cmp xs) = length xs"
  using mset_stable_sort [of cmp xs] by (metis size_mset)

lemma set_stable_sort: "set (stable_sort cmp xs) = set xs"
  using mset_stable_sort [of cmp xs] by (metis set_mset_mset)

lemma filter_sort_insert:
  assumes "P x \<Longrightarrow> \<forall>y \<in> set ys. P y \<longrightarrow> \<not> 0 < cmp x y"
  shows "filter P (sort_insert cmp x ys) = (if P x then x # filter P ys else filter P ys)"
  using assms by (induction ys) auto

lemma filter_stable_sort:
  assumes "\<forall>x \<in> set xs. \<forall>y \<in> set xs. P x \<and> P y \<longrightarrow> \<not> 0 < cmp x y"
  shows "filter P (stable_sort cmp xs) = filter P xs"
  using assms
proof (induction xs)
  case Nil
  then show ?case by simp
next
  case (Cons x xs)
  have ih: "filter P (stable_sort cmp xs) = filter P xs"
    using Cons by simp
  have "filter P (sort_insert cmp x (stable_sort cmp xs)) =
        (if P x then x # filter P (stable_sort cmp xs) else filter P (stable_sort cmp xs))"
    by (rule filter_sort_insert) (use Cons.prems in \<open>simp add: set_stable_sort\<close>)
  with ih show ?case by simp
qed

lemma successively_sort_insert:
  assumes anti: "\<And>u v. 0 < cmp u v \<Longrightarrow> \<not> 0 < cmp v u"
    and "successively (\<lambda>u v. \<not> 0 < cmp u v) ys"
  shows "successively (\<lambda>u v. \<not> 0 < cmp u v) (sort_insert cmp x ys)"
  using assms(2)
proof (induction ys)
  case Nil
  then show ?case by simp
next
  case (Cons y ys)
  show ?case
  proof (cases "0 < cmp x y")
    case False
    with Cons.prems show ?thesis by simp
  next
    case True
    have tl: "successively (\<lambda>u v. \<not> 0 < cmp u v) (sort_insert cmp x ys)"
      using Cons by (auto simp: successively_Cons)
    show ?thesis
    proof (cases ys)
      case Nil
      with True anti show ?thesis by simp
    next
      case (Cons z zs)
      with True anti tl Cons.prems show ?thesis
        by (auto simp: successively_Cons)
    qed
  qed
qed

lemma successively_stable_sort:
  assumes "\<And>u v. 0 < cmp u v \<Longrightarrow> \<not> 0 < cmp v u"
  shows "successively (\<lambda>u v. \<not> 0 < cmp u v) (stable_sort cmp xs)"
  by (induction xs) (simp_all add: successively_sort_insert assms)

lemma stable_sort_fixed:
  "successively (\<lambda>u v. \<not> 0 < cmp u v) xs \<Longrightarrow> stable_sort cmp xs = xs"
proof (induction xs)
  case Nil
  then show ?case by simp
next
  case (Cons x xs)
  then have "stable_sort cmp xs = xs"
    by (auto simp: successively_Cons)
  with Cons.prems show ?case
    by (cases xs) auto
qed

lemma stable_sort_idem:
  assumes "\<And>u v. 0 < cmp u v \<Longrightarrow> \<not> 0 < cmp v u"
  shows "stable_sort cmp (stable_sort cmp xs) = stable_sort cmp xs"
  by (rule stable_sort_fixed) (rule successively_stable_sort [OF assms])

text \<open>
  For a comparator that is antisymmetric and transitive in this sense the result is
  sorted: every row is followed only by rows the comparator does not put before it.
\<close>

lemma set_sort_insert: "set (sort_insert cmp x ys) = insert x (set ys)"
  by (induction ys) auto

lemma sorted_wrt_sort_insert:
  assumes anti: "\<And>u v. 0 < cmp u v \<Longrightarrow> \<not> 0 < cmp v u"
    and trans: "\<And>u v w. \<not> 0 < cmp u v \<Longrightarrow> \<not> 0 < cmp v w \<Longrightarrow> \<not> 0 < cmp u w"
    and "sorted_wrt (\<lambda>u v. \<not> 0 < cmp u v) ys"
  shows "sorted_wrt (\<lambda>u v. \<not> 0 < cmp u v) (sort_insert cmp x ys)"
  using assms(3)
proof (induction ys)
  case Nil
  then show ?case by simp
next
  case (Cons y ys)
  from Cons.prems have below: "\<forall>z \<in> set ys. \<not> 0 < cmp y z"
    and tl: "sorted_wrt (\<lambda>u v. \<not> 0 < cmp u v) ys"
    by simp_all
  show ?case
  proof (cases "0 < cmp x y")
    case True
    then have "\<not> 0 < cmp y x"
      by (rule anti)
    with below have "\<forall>z \<in> set (sort_insert cmp x ys). \<not> 0 < cmp y z"
      by (simp add: set_sort_insert)
    moreover have "sorted_wrt (\<lambda>u v. \<not> 0 < cmp u v) (sort_insert cmp x ys)"
      using tl by (rule Cons.IH)
    ultimately show ?thesis
      using True by simp
  next
    case False
    have "\<forall>z \<in> set ys. \<not> 0 < cmp x z"
    proof
      fix z
      assume "z \<in> set ys"
      with below have "\<not> 0 < cmp y z"
        by simp
      with False show "\<not> 0 < cmp x z"
        by (rule trans)
    qed
    with False Cons.prems show ?thesis
      by simp
  qed
qed

lemma sorted_wrt_stable_sort:
  assumes anti: "\<And>u v. 0 < cmp u v \<Longrightarrow> \<not> 0 < cmp v u"
    and trans: "\<And>u v w. \<not> 0 < cmp u v \<Longrightarrow> \<not> 0 < cmp v w \<Longrightarrow> \<not> 0 < cmp u w"
  shows "sorted_wrt (\<lambda>u v. \<not> 0 < cmp u v) (stable_sort cmp xs)"
proof (induction xs)
  case Nil
  then show ?case by simp
next
  case (Cons x xs)
  have "sorted_wrt (\<lambda>u v. \<not> 0 < cmp u v) (sort_insert cmp x (stable_sort cmp xs))"
    using anti trans Cons.IH by (rule sorted_wrt_sort_insert)
  then show ?case
    by simp
qed

lemma num_lt_asym: "num_lt x y \<Longrightarrow> \<not> num_lt y x"
  by (cases x; cases y) auto

lemma str_lt_asym: "str_lt s t \<Longrightarrow> \<not> str_lt t s"
  by (induction s t rule: str_lt.induct) (auto split: if_splits)

lemma js_lt_asym: "js_lt H a b \<Longrightarrow> \<not> js_lt H b a"
  unfolding js_lt_def
  by (cases "ToPrimitive a"; cases "ToPrimitive b") (auto dest: num_lt_asym str_lt_asym)

lemma js_lt_irrefl: "\<not> js_lt H a a"
  using js_lt_asym [of H a a] by blast

lemma compareFn_cases:
  "compareFn H cols k d a b = - 1 \<or> compareFn H cols k d a b = 0 \<or> compareFn H cols k d a b = 1"
  by (simp add: compareFn_def Let_def)

lemma compareFn_anti:
  "0 < compareFn H cols k d a b \<Longrightarrow> \<not> 0 < compareFn H cols k d b a"
  by (auto simp: compareFn_def Let_def js_gt_def conj_commute dest: js_lt_asym split: if_splits)

lemma compareFn_zero_sym:
  "compareFn H cols k d a b = 0 \<Longrightarrow> compareFn H cols k d b a = 0"
  by (auto simp: compareFn_def Let_def js_gt_def conj_commute split: if_splits)

lemma compareFn_refl: "compareFn H cols k d a a = 0"
  using js_lt_asym [of H _ _]
  by (auto simp: compareFn_def Let_def js_gt_def split: if_splits)

lemma compareFn_same_value:
  "sortValue (findColumn cols k) k a = sortValue (findColumn cols k) k b
     \<Longrightarrow> compareFn H cols k d a b = 0"
  by (simp add: compareFn_def Let_def js_gt_def js_lt_irrefl)


section \<open>Hosts\<close>

lemma host_ok_mset: "host_ok H \<Longrightarrow> mset (Array_sort H cmp xs) = mset xs"
  by (simp add: host_ok_def)

lemma host_ok_consistent:
  "host_ok H \<Longrightarrow> consistent cmp xs \<Longrightarrow> Array_sort H cmp xs = stable_sort cmp xs"
  by (simp add: host_ok_def)

lemma host_ok_insertion_host: "host_ok insertion_host"
  by (simp add: host_ok_def insertion_host_def mset_stable_sort)

lemma consistent_cong: "set ys = set xs \<Longrightarrow> consistent cmp ys = consistent cmp xs"
  by (simp add: consistent_def)

lemma consistent_stable_sort: "consistent cmp (stable_sort cmp xs) = consistent cmp xs"
  by (rule consistent_cong) (rule set_stable_sort)

lemma mset_sortedData: "host_ok H \<Longrightarrow> mset (sortedData H dat cols sc sd) = mset dat"
  by (simp add: sortedData_def host_ok_mset split: option.splits)

lemma length_sortedData: "host_ok H \<Longrightarrow> length (sortedData H dat cols sc sd) = length dat"
  using mset_sortedData [of H dat cols sc sd] by (metis size_mset)

lemma length_view: "host_ok H \<Longrightarrow> length (view H p s) = length (data p)"
  by (simp add: view_def length_sortedData)

section \<open>Consequences of consistency\<close>

lemma consistent_refl: "consistent cmp xs \<Longrightarrow> a \<in> set xs \<Longrightarrow> cmp a a = 0"
  unfolding consistent_def by blast

lemma consistent_sym:
  "consistent cmp xs \<Longrightarrow> a \<in> set xs \<Longrightarrow> b \<in> set xs \<Longrightarrow> cmp a b = 0 \<Longrightarrow> cmp b a = 0"
  unfolding consistent_def by blast

lemma consistent_equal_trans:
  "consistent cmp xs \<Longrightarrow> a \<in> set xs \<Longrightarrow> b \<in> set xs \<Longrightarrow> c \<in> set xs
     \<Longrightarrow> cmp a b = 0 \<Longrightarrow> cmp b c = 0 \<Longrightarrow> cmp a c = 0"
  unfolding consistent_def by blast

lemma consistent_less_trans:
  "consistent cmp xs \<Longrightarrow> a \<in> set xs \<Longrightarrow> b \<in> set xs \<Longrightarrow> c \<in> set xs
     \<Longrightarrow> cmp a b < 0 \<Longrightarrow> cmp b c < 0 \<Longrightarrow> cmp a c < 0"
  unfolding consistent_def by blast

lemma consistent_greater_trans:
  "consistent cmp xs \<Longrightarrow> a \<in> set xs \<Longrightarrow> b \<in> set xs \<Longrightarrow> c \<in> set xs
     \<Longrightarrow> 0 < cmp a b \<Longrightarrow> 0 < cmp b c \<Longrightarrow> 0 < cmp a c"
  unfolding consistent_def by blast

lemma consistent_less_greater:
  assumes "consistent cmp xs" "a \<in> set xs" "b \<in> set xs" "cmp a b < 0"
  shows "0 < cmp b a"
proof (rule ccontr)
  assume "\<not> 0 < cmp b a"
  then consider "cmp b a = 0" | "cmp b a < 0"
    by linarith
  then show False
  proof cases
    case 1
    with assms have "cmp a b = 0"
      by (simp add: consistent_sym)
    with assms(4) show False by simp
  next
    case 2
    with assms have "cmp a a < 0"
      using consistent_less_trans [of cmp xs a b a] by simp
    with assms show False
      by (simp add: consistent_refl)
  qed
qed

lemma consistent_greater_less:
  assumes "consistent cmp xs" "a \<in> set xs" "b \<in> set xs" "0 < cmp a b"
  shows "cmp b a < 0"
proof (rule ccontr)
  assume "\<not> cmp b a < 0"
  then consider "cmp b a = 0" | "0 < cmp b a"
    by linarith
  then show False
  proof cases
    case 1
    with assms have "cmp a b = 0"
      by (simp add: consistent_sym)
    with assms(4) show False by simp
  next
    case 2
    with assms have "0 < cmp a a"
      using consistent_greater_trans [of cmp xs a b a] by simp
    with assms show False
      by (simp add: consistent_refl)
  qed
qed

lemma consistent_less_equal:
  assumes c: "consistent cmp xs" and m: "a \<in> set xs" "b \<in> set xs" "c \<in> set xs"
    and ab: "cmp a b < 0" and bc: "cmp b c = 0"
  shows "cmp a c < 0"
proof (rule ccontr)
  assume "\<not> cmp a c < 0"
  then consider "cmp a c = 0" | "0 < cmp a c"
    by linarith
  then show False
  proof cases
    case 1
    then have "cmp c a = 0"
      using c m by (simp add: consistent_sym)
    with bc have "cmp b a = 0"
      using consistent_equal_trans [OF c m(2) m(3) m(1)] by simp
    then have "cmp a b = 0"
      using c m by (simp add: consistent_sym)
    with ab show False by simp
  next
    case 2
    then have "cmp c a < 0"
      using c m by (simp add: consistent_greater_less)
    with ab have "cmp c b < 0"
      using consistent_less_trans [OF c m(3) m(1) m(2)] by simp
    moreover from bc have "cmp c b = 0"
      using c m by (simp add: consistent_sym)
    ultimately show False by simp
  qed
qed

lemma consistent_equal_less:
  assumes c: "consistent cmp xs" and m: "a \<in> set xs" "b \<in> set xs" "c \<in> set xs"
    and ab: "cmp a b = 0" and bc: "cmp b c < 0"
  shows "cmp a c < 0"
proof (rule ccontr)
  assume "\<not> cmp a c < 0"
  then consider "cmp a c = 0" | "0 < cmp a c"
    by linarith
  then show False
  proof cases
    case 1
    from ab have "cmp b a = 0"
      using c m by (simp add: consistent_sym)
    with 1 have "cmp b c = 0"
      using consistent_equal_trans [OF c m(2) m(1) m(3)] by simp
    with bc show False by simp
  next
    case 2
    then have "cmp c a < 0"
      using c m by (simp add: consistent_greater_less)
    with bc have "cmp b a < 0"
      using consistent_less_trans [OF c m(2) m(3) m(1)] by simp
    moreover from ab have "cmp b a = 0"
      using c m by (simp add: consistent_sym)
    ultimately show False by simp
  qed
qed

text \<open>Not after: \<open>\<not> 0 < cmp a b\<close>. Under consistency it is the same as \<open>\<not> cmp b a < 0\<close>.\<close>

lemma consistent_not_after_iff:
  assumes "consistent cmp xs" "a \<in> set xs" "b \<in> set xs"
  shows "\<not> 0 < cmp a b \<longleftrightarrow> \<not> cmp b a < 0"
  using consistent_greater_less [OF assms] consistent_less_greater [OF assms(1,3,2)]
  by blast

lemma consistent_not_after_trans:
  assumes c: "consistent cmp xs" and m: "a \<in> set xs" "b \<in> set xs" "c \<in> set xs"
    and ab: "\<not> 0 < cmp a b" and bc: "\<not> 0 < cmp b c"
  shows "\<not> 0 < cmp a c"
proof -
  from ab consider "cmp a b < 0" | "cmp a b = 0"
    by linarith
  then show ?thesis
  proof cases
    case 1
    from bc consider "cmp b c < 0" | "cmp b c = 0"
      by linarith
    then have "cmp a c < 0"
    proof cases
      case 1
      with \<open>cmp a b < 0\<close> show ?thesis
        using consistent_less_trans [OF c m] by simp
    next
      case 2
      with \<open>cmp a b < 0\<close> show ?thesis
        using consistent_less_equal [OF c m] by simp
    qed
    then show ?thesis by simp
  next
    case 2
    from bc consider "cmp b c < 0" | "cmp b c = 0"
      by linarith
    then have "cmp a c \<le> 0"
    proof cases
      case 1
      with \<open>cmp a b = 0\<close> have "cmp a c < 0"
        using consistent_equal_less [OF c m] by simp
      then show ?thesis by simp
    next
      case 2
      with \<open>cmp a b = 0\<close> have "cmp a c = 0"
        using consistent_equal_trans [OF c m] by simp
      then show ?thesis by simp
    qed
    then show ?thesis by simp
  qed
qed

lemma consistent_less_not_after:
  assumes c: "consistent cmp xs" and m: "a \<in> set xs" "b \<in> set xs" "c \<in> set xs"
    and ab: "cmp a b < 0" and bc: "\<not> 0 < cmp b c"
  shows "cmp a c < 0"
proof -
  from bc consider "cmp b c < 0" | "cmp b c = 0"
    by linarith
  then show ?thesis
  proof cases
    case 1
    with ab show ?thesis
      using consistent_less_trans [OF c m] by simp
  next
    case 2
    with ab show ?thesis
      using consistent_less_equal [OF c m] by simp
  qed
qed

lemma consistent_subset:
  "consistent cmp xs \<Longrightarrow> set ys \<subseteq> set xs \<Longrightarrow> consistent cmp ys"
  unfolding consistent_def by (meson subsetD)

section \<open>The stable sorted order is unique\<close>

text \<open>
  For a consistent comparator, a list with the elements of \<open>xs\<close> that is in the order of
  the comparator and keeps the elements that compare equal in the order they have in
  \<open>xs\<close> is the result of the stable insertion sort of \<open>xs\<close>.
\<close>

lemma sorted_wrt_remove1_any: "sorted_wrt P xs \<Longrightarrow> sorted_wrt P (remove1 x xs)"
proof (induction xs)
  case Nil
  then show ?case by simp
next
  case (Cons y ys)
  have "set (remove1 x ys) \<subseteq> set ys"
    by (rule set_remove1_subset)
  with Cons show ?case
    by auto
qed

lemma sort_insert_front: "\<forall>v \<in> set vs. \<not> 0 < cmp x v \<Longrightarrow> sort_insert cmp x vs = x # vs"
  by (cases vs) simp_all

lemma sort_insert_remove1:
  assumes "consistent cmp ys"
    and "sorted_wrt (\<lambda>u v. \<not> 0 < cmp u v) ys"
    and "x \<in> set ys"
    and "filter (\<lambda>u. cmp x u = 0) ys = x # zs"
  shows "sort_insert cmp x (remove1 x ys) = ys"
  using assms
proof (induction ys)
  case Nil
  then show ?case by simp
next
  case (Cons y ys)
  show ?case
  proof (cases "y = x")
    case True
    with Cons.prems(2) have "\<forall>v \<in> set ys. \<not> 0 < cmp x v"
      by simp
    then have "sort_insert cmp x ys = x # ys"
      by (rule sort_insert_front)
    with True show ?thesis
      by simp
  next
    case False
    have mem: "x \<in> set (y # ys)" "y \<in> set (y # ys)"
      using Cons.prems(3) by simp_all
    have ne: "cmp x y \<noteq> 0"
    proof
      assume "cmp x y = 0"
      with Cons.prems(4) have "y = x"
        by simp
      with False show False
        by simp
    qed
    have x_in: "x \<in> set ys"
      using Cons.prems(3) False by simp
    with Cons.prems(2) have "\<not> 0 < cmp y x"
      by simp
    moreover have "cmp y x \<noteq> 0"
      using ne consistent_sym [OF Cons.prems(1) mem(2) mem(1)] by blast
    ultimately have "cmp y x < 0"
      by linarith
    then have gt: "0 < cmp x y"
      by (rule consistent_less_greater [OF Cons.prems(1) mem(2) mem(1)])
    have c': "consistent cmp ys"
      by (rule consistent_subset [OF Cons.prems(1)]) auto
    have s': "sorted_wrt (\<lambda>u v. \<not> 0 < cmp u v) ys"
      using Cons.prems(2) by simp
    have f': "filter (\<lambda>u. cmp x u = 0) ys = x # zs"
      using Cons.prems(4) ne by simp
    have "sort_insert cmp x (remove1 x ys) = ys"
      using c' s' x_in f' by (rule Cons.IH)
    with False gt show ?thesis
      by simp
  qed
qed

lemma stable_sort_unique:
  assumes "consistent cmp xs"
    and "mset ys = mset xs"
    and "sorted_wrt (\<lambda>u v. \<not> 0 < cmp u v) ys"
    and "\<forall>a \<in> set xs. filter (\<lambda>u. cmp a u = 0) ys = filter (\<lambda>u. cmp a u = 0) xs"
  shows "stable_sort cmp xs = ys"
  using assms
proof (induction xs arbitrary: ys)
  case Nil
  then show ?case by simp
next
  case (Cons x xs)
  have sets: "set ys = set (x # xs)"
    using Cons.prems(2) by (metis set_mset_mset)
  then have x_in: "x \<in> set ys"
    by simp
  have cons_ys: "consistent cmp ys"
    using Cons.prems(1) consistent_cong [OF sets, of cmp] by simp
  have refl: "cmp x x = 0"
    using Cons.prems(1) by (simp add: consistent_refl)
  have c': "consistent cmp xs"
    by (rule consistent_subset [OF Cons.prems(1)]) auto
  have m': "mset (remove1 x ys) = mset xs"
    using Cons.prems(2) by simp
  have s': "sorted_wrt (\<lambda>u v. \<not> 0 < cmp u v) (remove1 x ys)"
    using Cons.prems(3) by (rule sorted_wrt_remove1_any)
  have f': "\<forall>a \<in> set xs. filter (\<lambda>u. cmp a u = 0) (remove1 x ys) = filter (\<lambda>u. cmp a u = 0) xs"
  proof
    fix a
    assume "a \<in> set xs"
    then have eq: "filter (\<lambda>u. cmp a u = 0) ys = filter (\<lambda>u. cmp a u = 0) (x # xs)"
      using Cons.prems(4) by simp
    have "filter (\<lambda>u. cmp a u = 0) (remove1 x ys) = remove1 x (filter (\<lambda>u. cmp a u = 0) ys)"
      by (rule filter_remove1)
    also have "\<dots> = remove1 x (filter (\<lambda>u. cmp a u = 0) (x # xs))"
      by (simp only: eq)
    also have "\<dots> = filter (\<lambda>u. cmp a u = 0) xs"
      by (simp add: remove1_idem)
    finally show "filter (\<lambda>u. cmp a u = 0) (remove1 x ys) = filter (\<lambda>u. cmp a u = 0) xs" .
  qed
  have ih: "stable_sort cmp xs = remove1 x ys"
    using c' m' s' f' by (rule Cons.IH)
  have "filter (\<lambda>u. cmp x u = 0) ys = x # filter (\<lambda>u. cmp x u = 0) xs"
    using Cons.prems(4) refl by simp
  with cons_ys Cons.prems(3) x_in have "sort_insert cmp x (remove1 x ys) = ys"
    by (rule sort_insert_remove1 [where zs = "filter (\<lambda>u. cmp x u = 0) xs"])
  with ih show ?case
    by simp
qed

section \<open>Binary insertion sorts as ECMAScript requires\<close>

lemma binary_search_split:
  assumes "consistent cmp (pivot # arr)"
    and "sorted_wrt (\<lambda>u v. \<not> 0 < cmp u v) arr"
    and "left \<le> right" and "right \<le> length arr"
    and "\<forall>i < left. \<not> cmp pivot (arr ! i) < 0"
    and "\<forall>i. right \<le> i \<longrightarrow> i < length arr \<longrightarrow> cmp pivot (arr ! i) < 0"
  shows "(\<forall>i < binary_search cmp pivot arr left right. \<not> cmp pivot (arr ! i) < 0)
       \<and> (\<forall>i. binary_search cmp pivot arr left right \<le> i \<longrightarrow> i < length arr
              \<longrightarrow> cmp pivot (arr ! i) < 0)
       \<and> binary_search cmp pivot arr left right \<le> length arr"
  using assms
proof (induction cmp pivot arr left right rule: binary_search.induct)
  case (1 cmp pivot arr left right)
  note c = "1.prems"(1) and s = "1.prems"(2)
  show ?case
  proof (cases "left < right")
    case False
    with "1.prems"(3) have "left = right"
      by simp
    moreover from False have "binary_search cmp pivot arr left right = left"
      by (simp add: binary_search.simps [of cmp pivot arr left right])
    ultimately show ?thesis
      using "1.prems"(4,5,6) by simp
  next
    case True
    define mid where "mid = left + (right - left) div 2"
    have mid: "left \<le> mid" "mid < right"
      using True by (simp_all add: mid_def)
    have mid_len: "mid < length arr"
      using mid "1.prems"(4) by simp
    have p_in: "pivot \<in> set (pivot # arr)"
      by simp
    have nth_in: "arr ! i \<in> set (pivot # arr)" if "i < length arr" for i
      using that by simp
    show ?thesis
    proof (cases "cmp pivot (arr ! mid) < 0")
      case less: True
      have eq: "binary_search cmp pivot arr left right = binary_search cmp pivot arr left mid"
        using True less
        by (simp add: binary_search.simps [of cmp pivot arr left right] mid_def Let_def)
      have upper: "\<forall>i. mid \<le> i \<longrightarrow> i < length arr \<longrightarrow> cmp pivot (arr ! i) < 0"
      proof (intro allI impI)
        fix i
        assume i: "mid \<le> i" "i < length arr"
        show "cmp pivot (arr ! i) < 0"
        proof (cases "i = mid")
          case True
          with less show ?thesis by simp
        next
          case False
          with i have "mid < i"
            by simp
          from sorted_wrt_nth_less [OF s this i(2)]
          have "\<not> 0 < cmp (arr ! mid) (arr ! i)"
            by simp
          with less show ?thesis
            using consistent_less_not_after [OF c p_in nth_in [OF mid_len] nth_in [OF i(2)]]
            by simp
        qed
      qed
      have "(\<forall>i < binary_search cmp pivot arr left mid. \<not> cmp pivot (arr ! i) < 0)
          \<and> (\<forall>i. binary_search cmp pivot arr left mid \<le> i \<longrightarrow> i < length arr
                \<longrightarrow> cmp pivot (arr ! i) < 0)
          \<and> binary_search cmp pivot arr left mid \<le> length arr"
        using True mid_def less c s mid(1) mid_len "1.prems"(5) upper
        by (intro "1.IH"(1)) simp_all
      with eq show ?thesis
        by simp
    next
      case notless: False
      have eq: "binary_search cmp pivot arr left right
                  = binary_search cmp pivot arr (mid + 1) right"
        using True notless
        by (simp add: binary_search.simps [of cmp pivot arr left right] mid_def Let_def)
      have lower: "\<forall>i < mid + 1. \<not> cmp pivot (arr ! i) < 0"
      proof (intro allI impI)
        fix i
        assume i: "i < mid + 1"
        show "\<not> cmp pivot (arr ! i) < 0"
        proof (cases "i = mid")
          case True
          with notless show ?thesis by simp
        next
          case False
          with i have lt: "i < mid"
            by simp
          then have i_len: "i < length arr"
            using mid_len by simp
          from sorted_wrt_nth_less [OF s lt mid_len]
          have "\<not> 0 < cmp (arr ! i) (arr ! mid)"
            by simp
          then show ?thesis
            using consistent_less_not_after [OF c p_in nth_in [OF i_len] nth_in [OF mid_len]]
              notless
            by blast
        qed
      qed
      have "(\<forall>i < binary_search cmp pivot arr (mid + 1) right. \<not> cmp pivot (arr ! i) < 0)
          \<and> (\<forall>i. binary_search cmp pivot arr (mid + 1) right \<le> i \<longrightarrow> i < length arr
                \<longrightarrow> cmp pivot (arr ! i) < 0)
          \<and> binary_search cmp pivot arr (mid + 1) right \<le> length arr"
        using True mid_def notless c s mid(2) "1.prems"(4,6) lower
        by (intro "1.IH"(2)) simp_all
      with eq show ?thesis
        by simp
    qed
  qed
qed

lemma mset_binary_insert: "mset (binary_insert cmp arr pivot) = add_mset pivot (mset arr)"
proof -
  have "mset (take l arr) + mset (drop l arr) = mset arr" for l
    by (subst mset_append [symmetric]) simp
  then show ?thesis
    by (simp add: binary_insert_def Let_def)
qed

lemma set_binary_insert: "set (binary_insert cmp arr pivot) = insert pivot (set arr)"
proof -
  have "set (take l arr) \<union> set (drop l arr) = set arr" for l
    by (subst set_append [symmetric]) simp
  then show ?thesis
    by (simp add: binary_insert_def Let_def)
qed

lemma binary_insert_parts:
  assumes c: "consistent cmp (pivot # arr)"
    and s: "sorted_wrt (\<lambda>u v. \<not> 0 < cmp u v) arr"
  obtains l where "binary_insert cmp arr pivot = take l arr @ pivot # drop l arr"
    and "\<forall>e \<in> set (take l arr). \<not> cmp pivot e < 0"
    and "\<forall>e \<in> set (drop l arr). cmp pivot e < 0"
proof -
  define l where "l = binary_search cmp pivot arr 0 (length arr)"
  have split: "(\<forall>i < l. \<not> cmp pivot (arr ! i) < 0)
       \<and> (\<forall>i. l \<le> i \<longrightarrow> i < length arr \<longrightarrow> cmp pivot (arr ! i) < 0)
       \<and> l \<le> length arr"
    unfolding l_def using c s by (rule binary_search_split) simp_all
  have lower: "\<forall>e \<in> set (take l arr). \<not> cmp pivot e < 0"
  proof
    fix e
    assume "e \<in> set (take l arr)"
    then obtain i where "i < length (take l arr)" "e = take l arr ! i"
      by (auto simp: in_set_conv_nth)
    with split show "\<not> cmp pivot e < 0"
      by simp
  qed
  have upper: "\<forall>e \<in> set (drop l arr). cmp pivot e < 0"
  proof
    fix e
    assume "e \<in> set (drop l arr)"
    then obtain i where i: "i < length (drop l arr)" "e = drop l arr ! i"
      by (auto simp: in_set_conv_nth)
    then have "e = arr ! (l + i)" "l + i < length arr"
      using split by simp_all
    with split show "cmp pivot e < 0"
      by simp
  qed
  have "binary_insert cmp arr pivot = take l arr @ pivot # drop l arr"
    by (simp add: binary_insert_def l_def Let_def)
  with lower upper that show thesis
    by blast
qed

lemma sorted_binary_insert:
  assumes c: "consistent cmp (pivot # arr)"
    and s: "sorted_wrt (\<lambda>u v. \<not> 0 < cmp u v) arr"
  shows "sorted_wrt (\<lambda>u v. \<not> 0 < cmp u v) (binary_insert cmp arr pivot)"
proof -
  from c s obtain l where eq: "binary_insert cmp arr pivot = take l arr @ pivot # drop l arr"
    and lower: "\<forall>e \<in> set (take l arr). \<not> cmp pivot e < 0"
    and upper: "\<forall>e \<in> set (drop l arr). cmp pivot e < 0"
    by (rule binary_insert_parts)
  have "sorted_wrt (\<lambda>u v. \<not> 0 < cmp u v) (take l arr @ drop l arr)"
    using s by simp
  then have parts: "sorted_wrt (\<lambda>u v. \<not> 0 < cmp u v) (take l arr)"
    "sorted_wrt (\<lambda>u v. \<not> 0 < cmp u v) (drop l arr)"
    "\<forall>x \<in> set (take l arr). \<forall>y \<in> set (drop l arr). \<not> 0 < cmp x y"
    unfolding sorted_wrt_append by blast+
  have before: "\<forall>e \<in> set (take l arr). \<not> 0 < cmp e pivot"
  proof
    fix e
    assume e: "e \<in> set (take l arr)"
    then have "e \<in> set (pivot # arr)"
      by (auto dest: in_set_takeD)
    moreover from e lower have "\<not> cmp pivot e < 0"
      by simp
    ultimately show "\<not> 0 < cmp e pivot"
      using consistent_not_after_iff [OF c, of e pivot] by simp
  qed
  have after: "\<forall>e \<in> set (drop l arr). \<not> 0 < cmp pivot e"
  proof
    fix e
    assume "e \<in> set (drop l arr)"
    with upper have "cmp pivot e < 0"
      by simp
    then show "\<not> 0 < cmp pivot e"
      by simp
  qed
  from parts before after show ?thesis
    unfolding eq by (simp add: sorted_wrt_append)
qed


lemma filter_binary_insert:
  assumes c: "consistent cmp (a # pivot # arr)"
    and s: "sorted_wrt (\<lambda>u v. \<not> 0 < cmp u v) arr"
  shows "filter (\<lambda>u. cmp a u = 0) (binary_insert cmp arr pivot)
           = filter (\<lambda>u. cmp a u = 0) arr @ filter (\<lambda>u. cmp a u = 0) [pivot]"
proof -
  have "consistent cmp (pivot # arr)"
    by (rule consistent_subset [OF c]) auto
  from this s obtain l where eq: "binary_insert cmp arr pivot = take l arr @ pivot # drop l arr"
    and upper: "\<forall>e \<in> set (drop l arr). cmp pivot e < 0"
    by (rule binary_insert_parts)
  have a: "a \<in> set (a # pivot # arr)"
    by simp
  have whole: "filter (\<lambda>u. cmp a u = 0) (take l arr) @ filter (\<lambda>u. cmp a u = 0) (drop l arr)
                 = filter (\<lambda>u. cmp a u = 0) arr"
    by (subst filter_append [symmetric]) simp
  show ?thesis
  proof (cases "cmp a pivot = 0")
    case False
    with whole show ?thesis
      by (simp add: eq)
  next
    case True
    have p_in: "pivot \<in> set (a # pivot # arr)"
      by simp
    have pa: "cmp pivot a = 0"
      using True by (rule consistent_sym [OF c a p_in])
    have "filter (\<lambda>u. cmp a u = 0) (drop l arr) = []"
    proof (rule ccontr)
      assume "filter (\<lambda>u. cmp a u = 0) (drop l arr) \<noteq> []"
      then obtain e where e: "e \<in> set (drop l arr)" "cmp a e = 0"
        by (auto simp: filter_empty_conv)
      then have e_in: "e \<in> set (a # pivot # arr)"
        by (auto dest: in_set_dropD)
      from pa e(2) have "cmp pivot e = 0"
        by (rule consistent_equal_trans [OF c p_in a e_in])
      moreover from upper e(1) have "cmp pivot e < 0"
        by simp
      ultimately show False
        by simp
    qed
    with whole True show ?thesis
      by (simp add: eq)
  qed
qed

lemma mset_foldl_binary_insert:
  "mset (foldl (binary_insert cmp) arr rest) = mset arr + mset rest"
  by (induction rest arbitrary: arr) (simp_all add: mset_binary_insert)

lemma foldl_binary_insert:
  assumes "consistent cmp (arr @ rest)"
    and "sorted_wrt (\<lambda>u v. \<not> 0 < cmp u v) arr"
  shows "sorted_wrt (\<lambda>u v. \<not> 0 < cmp u v) (foldl (binary_insert cmp) arr rest)
       \<and> (\<forall>a \<in> set (arr @ rest).
            filter (\<lambda>u. cmp a u = 0) (foldl (binary_insert cmp) arr rest)
              = filter (\<lambda>u. cmp a u = 0) arr @ filter (\<lambda>u. cmp a u = 0) rest)"
  using assms
proof (induction rest arbitrary: arr)
  case Nil
  then show ?case by simp
next
  case (Cons p rest)
  have c1: "consistent cmp (p # arr)"
    by (rule consistent_subset [OF Cons.prems(1)]) auto
  have s1: "sorted_wrt (\<lambda>u v. \<not> 0 < cmp u v) (binary_insert cmp arr p)"
    using c1 Cons.prems(2) by (rule sorted_binary_insert)
  have "set (binary_insert cmp arr p @ rest) = set (arr @ p # rest)"
    by (simp add: set_binary_insert)
  then have c2: "consistent cmp (binary_insert cmp arr p @ rest)"
    using Cons.prems(1) consistent_cong [of "binary_insert cmp arr p @ rest" "arr @ p # rest" cmp]
    by simp
  from Cons.IH [OF c2 s1]
  have ih_sorted: "sorted_wrt (\<lambda>u v. \<not> 0 < cmp u v)
                     (foldl (binary_insert cmp) (binary_insert cmp arr p) rest)"
    and ih_filter: "\<forall>a \<in> set (binary_insert cmp arr p @ rest).
            filter (\<lambda>u. cmp a u = 0) (foldl (binary_insert cmp) (binary_insert cmp arr p) rest)
              = filter (\<lambda>u. cmp a u = 0) (binary_insert cmp arr p)
                  @ filter (\<lambda>u. cmp a u = 0) rest"
    by simp_all
  have "\<forall>a \<in> set (arr @ p # rest).
            filter (\<lambda>u. cmp a u = 0) (foldl (binary_insert cmp) arr (p # rest))
              = filter (\<lambda>u. cmp a u = 0) arr @ filter (\<lambda>u. cmp a u = 0) (p # rest)"
  proof
    fix a
    assume a: "a \<in> set (arr @ p # rest)"
    then have a2: "a \<in> set (binary_insert cmp arr p @ rest)"
      by (simp add: set_binary_insert)
    have "consistent cmp (a # p # arr)"
      by (rule consistent_subset [OF Cons.prems(1)]) (use a in auto)
    from this Cons.prems(2)
    have "filter (\<lambda>u. cmp a u = 0) (binary_insert cmp arr p)
            = filter (\<lambda>u. cmp a u = 0) arr @ filter (\<lambda>u. cmp a u = 0) [p]"
      by (rule filter_binary_insert)
    with ih_filter a2
    show "filter (\<lambda>u. cmp a u = 0) (foldl (binary_insert cmp) arr (p # rest))
              = filter (\<lambda>u. cmp a u = 0) arr @ filter (\<lambda>u. cmp a u = 0) (p # rest)"
      by simp
  qed
  with ih_sorted show ?case
    by simp
qed

lemma run_ascending_spec:
  "run_ascending cmp previous xs = (r, rest)
     \<Longrightarrow> xs = r @ rest \<and> successively (\<lambda>p x. \<not> cmp x p < 0) (previous # r)"
proof (induction xs arbitrary: previous r rest)
  case Nil
  then show ?case by simp
next
  case (Cons x xs)
  show ?case
  proof (cases "cmp x previous < 0")
    case True
    with Cons.prems show ?thesis
      by simp
  next
    case False
    obtain r' rest' where rec: "run_ascending cmp x xs = (r', rest')"
      by (cases "run_ascending cmp x xs")
    with False Cons.prems have "r = x # r'" "rest = rest'"
      by simp_all
    with Cons.IH [OF rec] False show ?thesis
      by simp
  qed
qed

lemma run_descending_spec:
  "run_descending cmp previous xs = (r, rest)
     \<Longrightarrow> xs = r @ rest \<and> successively (\<lambda>p x. cmp x p < 0) (previous # r)"
proof (induction xs arbitrary: previous r rest)
  case Nil
  then show ?case by simp
next
  case (Cons x xs)
  show ?case
  proof (cases "0 \<le> cmp x previous")
    case True
    with Cons.prems show ?thesis
      by simp
  next
    case False
    obtain r' rest' where rec: "run_descending cmp x xs = (r', rest')"
      by (cases "run_descending cmp x xs")
    with False Cons.prems have "r = x # r'" "rest = rest'"
      by simp_all
    with Cons.IH [OF rec] False show ?thesis
      by simp
  qed
qed

text \<open>
  The run is the start of the array, or the start of the array reversed when it
  strictly descends.
\<close>

lemma CountAndMakeRun_spec:
  assumes "CountAndMakeRun cmp xs = (r, rest)"
  shows "\<exists>r0. xs = r0 @ rest
           \<and> (r = r0 \<and> successively (\<lambda>p x. \<not> cmp x p < 0) r0
                \<or> r = rev r0 \<and> successively (\<lambda>p x. cmp x p < 0) r0)"
proof (cases xs)
  case Nil
  with assms have "r = []" "rest = []"
    by simp_all
  with Nil show ?thesis
    by simp
next
  case (Cons x tl)
  show ?thesis
  proof (cases tl)
    case Nil
    with Cons assms have "r = [x]" "rest = []"
      by simp_all
    with Nil Cons show ?thesis
      by simp
  next
    case (Cons y zs)
    with \<open>xs = x # tl\<close> have xs: "xs = x # y # zs"
      by simp
    show ?thesis
    proof (cases "cmp y x < 0")
      case True
      obtain r' rest' where rec: "run_descending cmp y zs = (r', rest')"
        by (cases "run_descending cmp y zs")
      with True assms xs have eq: "r = rev (x # y # r')" "rest = rest'"
        by simp_all
      from run_descending_spec [OF rec] True
      have "xs = (x # y # r') @ rest'" "successively (\<lambda>p x. cmp x p < 0) (x # y # r')"
        by (simp_all add: xs)
      with eq show ?thesis
        by blast
    next
      case False
      obtain r' rest' where rec: "run_ascending cmp y zs = (r', rest')"
        by (cases "run_ascending cmp y zs")
      with False assms xs have eq: "r = x # y # r'" "rest = rest'"
        by simp_all
      from run_ascending_spec [OF rec] False
      have "xs = (x # y # r') @ rest'" "successively (\<lambda>p x. \<not> cmp x p < 0) (x # y # r')"
        by (simp_all add: xs)
      with eq show ?thesis
        by blast
    qed
  qed
qed

lemma mset_binary_insertion_sort: "mset (binary_insertion_sort cmp xs) = mset xs"
proof -
  obtain r rest where run: "CountAndMakeRun cmp xs = (r, rest)"
    by (cases "CountAndMakeRun cmp xs")
  then obtain r0 where "xs = r0 @ rest" "r = r0 \<or> r = rev r0"
    using CountAndMakeRun_spec [of cmp xs r rest] by blast
  then have "mset r + mset rest = mset xs"
    by auto
  with run show ?thesis
    by (simp add: binary_insertion_sort_def mset_foldl_binary_insert)
qed

lemma ascending_run_sorted:
  assumes c: "consistent cmp r0"
    and run: "successively (\<lambda>p x. \<not> cmp x p < 0) r0"
  shows "sorted_wrt (\<lambda>u v. \<not> 0 < cmp u v) r0"
proof -
  have "successively (\<lambda>u v. \<not> 0 < cmp u v) r0 \<longleftrightarrow> successively (\<lambda>p x. \<not> cmp x p < 0) r0"
    by (rule successively_cong) (simp_all add: consistent_not_after_iff [OF c])
  with run have "successively (\<lambda>u v. \<not> 0 < cmp u v) r0"
    by simp
  moreover have "successively (\<lambda>u v. \<not> 0 < cmp u v) r0 \<longleftrightarrow> sorted_wrt (\<lambda>u v. \<not> 0 < cmp u v) r0"
    by (rule successively_iff_sorted_wrt_strong) (rule consistent_not_after_trans [OF c])
  ultimately show ?thesis
    by simp
qed

lemma descending_run_strict:
  assumes c: "consistent cmp r0"
    and run: "successively (\<lambda>p x. cmp x p < 0) r0"
  shows "sorted_wrt (\<lambda>p x. cmp x p < 0) r0"
proof -
  have "successively (\<lambda>p x. cmp x p < 0) r0 \<longleftrightarrow> sorted_wrt (\<lambda>p x. cmp x p < 0) r0"
  proof (rule successively_iff_sorted_wrt_strong)
    fix x y z
    assume "x \<in> set r0" "y \<in> set r0" "z \<in> set r0" "cmp y x < 0" "cmp z y < 0"
    then show "cmp z x < 0"
      using consistent_less_trans [OF c, of z y x] by simp
  qed
  with run show ?thesis
    by simp
qed

lemma strict_run_class:
  assumes c: "consistent cmp (a # r0)"
    and strict: "sorted_wrt (\<lambda>p x. cmp x p < 0) r0"
  shows "length (filter (\<lambda>u. cmp a u = 0) r0) \<le> 1"
  using assms
proof (induction r0)
  case Nil
  then show ?case by simp
next
  case (Cons x xs)
  have c': "consistent cmp (a # xs)"
    by (rule consistent_subset [OF Cons.prems(1)]) auto
  have s': "sorted_wrt (\<lambda>p x. cmp x p < 0) xs"
    using Cons.prems(2) by simp
  show ?case
  proof (cases "cmp a x = 0")
    case False
    with Cons.IH [OF c' s'] show ?thesis
      by simp
  next
    case True
    have "filter (\<lambda>u. cmp a u = 0) xs = []"
    proof (rule ccontr)
      assume "filter (\<lambda>u. cmp a u = 0) xs \<noteq> []"
      then obtain e where e: "e \<in> set xs" "cmp a e = 0"
        by (auto simp: filter_empty_conv)
      have m: "a \<in> set (a # x # xs)" "x \<in> set (a # x # xs)" "e \<in> set (a # x # xs)"
        using e(1) by simp_all
      from True have "cmp x a = 0"
        by (rule consistent_sym [OF Cons.prems(1) m(1) m(2)])
      from this e(2) have "cmp x e = 0"
        by (rule consistent_equal_trans [OF Cons.prems(1) m(2) m(1) m(3)])
      then have "cmp e x = 0"
        by (rule consistent_sym [OF Cons.prems(1) m(2) m(3)])
      moreover from Cons.prems(2) e(1) have "cmp e x < 0"
        by simp
      ultimately show False
        by simp
    qed
    with True show ?thesis
      by simp
  qed
qed

lemma rev_short: "length xs \<le> 1 \<Longrightarrow> rev xs = xs"
  by (cases xs) simp_all

lemma binary_insertion_sort_consistent:
  assumes c: "consistent cmp xs"
  shows "binary_insertion_sort cmp xs = stable_sort cmp xs"
proof -
  obtain r rest where run: "CountAndMakeRun cmp xs = (r, rest)"
    by (cases "CountAndMakeRun cmp xs")
  then obtain r0 where xs: "xs = r0 @ rest"
    and shape: "r = r0 \<and> successively (\<lambda>p x. \<not> cmp x p < 0) r0
         \<or> r = rev r0 \<and> successively (\<lambda>p x. cmp x p < 0) r0"
    using CountAndMakeRun_spec [of cmp xs r rest] by blast
  have c0: "consistent cmp r0"
    by (rule consistent_subset [OF c]) (simp add: xs)
  have set_r: "set r = set r0"
    using shape by auto
  have sorted_r: "sorted_wrt (\<lambda>u v. \<not> 0 < cmp u v) r"
    using shape
  proof
    assume "r = r0 \<and> successively (\<lambda>p x. \<not> cmp x p < 0) r0"
    with c0 show ?thesis
      by (simp add: ascending_run_sorted)
  next
    assume d: "r = rev r0 \<and> successively (\<lambda>p x. cmp x p < 0) r0"
    with c0 have "sorted_wrt (\<lambda>p x. cmp x p < 0) r0"
      by (simp add: descending_run_strict)
    then have "sorted_wrt (\<lambda>u v. cmp u v < 0) (rev r0)"
      by (simp add: sorted_wrt_rev)
    then have "sorted_wrt (\<lambda>u v. \<not> 0 < cmp u v) (rev r0)"
      by (rule sorted_wrt_mono_rel [rotated]) simp
    with d show ?thesis
      by simp
  qed
  have filter_r: "filter (\<lambda>u. cmp a u = 0) r = filter (\<lambda>u. cmp a u = 0) r0"
    if a: "a \<in> set xs" for a
    using shape
  proof
    assume "r = r0 \<and> successively (\<lambda>p x. \<not> cmp x p < 0) r0"
    then show ?thesis
      by simp
  next
    assume d: "r = rev r0 \<and> successively (\<lambda>p x. cmp x p < 0) r0"
    with c0 have strict: "sorted_wrt (\<lambda>p x. cmp x p < 0) r0"
      by (simp add: descending_run_strict)
    have "consistent cmp (a # r0)"
      by (rule consistent_subset [OF c]) (use a xs in auto)
    from this strict have "length (filter (\<lambda>u. cmp a u = 0) r0) \<le> 1"
      by (rule strict_run_class)
    then have "rev (filter (\<lambda>u. cmp a u = 0) r0) = filter (\<lambda>u. cmp a u = 0) r0"
      by (rule rev_short)
    with d show ?thesis
      by (simp add: rev_filter)
  qed
  have c_fold: "consistent cmp (r @ rest)"
    using c consistent_cong [of "r @ rest" xs cmp] by (simp add: xs set_r)
  let ?ys = "foldl (binary_insert cmp) r rest"
  from foldl_binary_insert [OF c_fold sorted_r]
  have sorted_ys: "sorted_wrt (\<lambda>u v. \<not> 0 < cmp u v) ?ys"
    and filter_ys: "\<forall>a \<in> set (r @ rest). filter (\<lambda>u. cmp a u = 0) ?ys
                      = filter (\<lambda>u. cmp a u = 0) r @ filter (\<lambda>u. cmp a u = 0) rest"
    by simp_all
  have mset_ys: "mset ?ys = mset xs"
    using mset_binary_insertion_sort [of cmp xs] run by (simp add: binary_insertion_sort_def)
  have "\<forall>a \<in> set xs. filter (\<lambda>u. cmp a u = 0) ?ys = filter (\<lambda>u. cmp a u = 0) xs"
  proof
    fix a
    assume a: "a \<in> set xs"
    then have "a \<in> set (r @ rest)"
      by (simp add: xs set_r)
    with filter_ys have "filter (\<lambda>u. cmp a u = 0) ?ys
                      = filter (\<lambda>u. cmp a u = 0) r @ filter (\<lambda>u. cmp a u = 0) rest"
      by blast
    with filter_r [OF a] show "filter (\<lambda>u. cmp a u = 0) ?ys = filter (\<lambda>u. cmp a u = 0) xs"
      by (simp add: xs)
  qed
  with c mset_ys sorted_ys have "stable_sort cmp xs = ?ys"
    by (rule stable_sort_unique)
  with run show ?thesis
    by (simp add: binary_insertion_sort_def)
qed

lemma host_ok_binary_insertion_host: "host_ok binary_insertion_host"
  by (simp add: host_ok_def binary_insertion_host_def mset_binary_insertion_sort
      binary_insertion_sort_consistent)

section \<open>Columns on which the comparator is consistent\<close>

text \<open>
  A comparator that is the three-way comparison of keys, by a strict linear order on the
  keys that occur, possibly negated, is consistent.
\<close>

lemma consistent_three_way:
  assumes cmp: "\<And>a b. a \<in> set xs \<Longrightarrow> b \<in> set xs \<Longrightarrow>
             cmp a b = (if lt (f a) (f b) then - s else if lt (f b) (f a) then s else 0)"
    and s: "s = 1 \<or> s = - 1"
    and dom: "\<And>a. a \<in> set xs \<Longrightarrow> D (f a)"
    and irrefl: "\<And>u. D u \<Longrightarrow> \<not> lt u u"
    and trans: "\<And>u v w. D u \<Longrightarrow> D v \<Longrightarrow> D w \<Longrightarrow> lt u v \<Longrightarrow> lt v w \<Longrightarrow> lt u w"
    and total: "\<And>u v. D u \<Longrightarrow> D v \<Longrightarrow> lt u v \<or> u = v \<or> lt v u"
  shows "consistent cmp xs"
proof -
  have asym: "\<not> lt v u" if "D u" "D v" "lt u v" for u v
    using that irrefl [of u] trans [of u v u] by blast
  have zero: "cmp a b = 0 \<longleftrightarrow> f a = f b" if "a \<in> set xs" "b \<in> set xs" for a b
    using cmp [OF that] s total [OF dom [OF that(1)] dom [OF that(2)]] irrefl [OF dom [OF that(1)]]
    by (auto split: if_splits)
  have neg: "cmp a b < 0 \<longleftrightarrow> (if s = 1 then lt (f a) (f b) else lt (f b) (f a))"
    if "a \<in> set xs" "b \<in> set xs" for a b
    using cmp [OF that] s asym [OF dom [OF that(1)] dom [OF that(2)]]
      asym [OF dom [OF that(2)] dom [OF that(1)]]
    by (auto split: if_splits)
  have pos: "0 < cmp a b \<longleftrightarrow> (if s = 1 then lt (f b) (f a) else lt (f a) (f b))"
    if "a \<in> set xs" "b \<in> set xs" for a b
    using cmp [OF that] s asym [OF dom [OF that(1)] dom [OF that(2)]]
      asym [OF dom [OF that(2)] dom [OF that(1)]]
    by (auto split: if_splits)
  have c1: "\<forall>a \<in> set xs. cmp a a = 0"
    by (simp add: zero)
  have c2: "\<forall>a \<in> set xs. \<forall>b \<in> set xs. cmp a b = 0 \<longrightarrow> cmp b a = 0"
    by (simp add: zero)
  have c3: "\<forall>a \<in> set xs. \<forall>b \<in> set xs. \<forall>c \<in> set xs.
              cmp a b = 0 \<and> cmp b c = 0 \<longrightarrow> cmp a c = 0"
    by (simp add: zero)
  have c4: "\<forall>a \<in> set xs. \<forall>b \<in> set xs. \<forall>c \<in> set xs.
              cmp a b < 0 \<and> cmp b c < 0 \<longrightarrow> cmp a c < 0"
  proof (intro ballI impI)
    fix a b c
    assume m: "a \<in> set xs" "b \<in> set xs" "c \<in> set xs" and h: "cmp a b < 0 \<and> cmp b c < 0"
    show "cmp a c < 0"
    proof (cases "s = 1")
      case True
      with h m have "lt (f a) (f b)" "lt (f b) (f c)"
        by (simp_all add: neg)
      then have "lt (f a) (f c)"
        using trans [OF dom [OF m(1)] dom [OF m(2)] dom [OF m(3)]] by blast
      with True m show ?thesis
        by (simp add: neg)
    next
      case False
      with h m have "lt (f c) (f b)" "lt (f b) (f a)"
        by (simp_all add: neg)
      then have "lt (f c) (f a)"
        using trans [OF dom [OF m(3)] dom [OF m(2)] dom [OF m(1)]] by blast
      with False m show ?thesis
        by (simp add: neg)
    qed
  qed
  have c5: "\<forall>a \<in> set xs. \<forall>b \<in> set xs. \<forall>c \<in> set xs.
              0 < cmp a b \<and> 0 < cmp b c \<longrightarrow> 0 < cmp a c"
  proof (intro ballI impI)
    fix a b c
    assume m: "a \<in> set xs" "b \<in> set xs" "c \<in> set xs" and h: "0 < cmp a b \<and> 0 < cmp b c"
    show "0 < cmp a c"
    proof (cases "s = 1")
      case True
      with h m have "lt (f c) (f b)" "lt (f b) (f a)"
        by (simp_all add: pos)
      then have "lt (f c) (f a)"
        using trans [OF dom [OF m(3)] dom [OF m(2)] dom [OF m(1)]] by blast
      with True m show ?thesis
        by (simp add: pos)
    next
      case False
      with h m have "lt (f a) (f b)" "lt (f b) (f c)"
        by (simp_all add: pos)
      then have "lt (f a) (f c)"
        using trans [OF dom [OF m(1)] dom [OF m(2)] dom [OF m(3)]] by blast
      with False m show ?thesis
        by (simp add: pos)
    qed
  qed
  from c1 c2 c3 c4 c5 show ?thesis
    unfolding consistent_def by blast
qed

lemma str_lt_irrefl: "\<not> str_lt s s"
  by (induction s) simp_all

lemma str_lt_trans: "str_lt s t \<Longrightarrow> str_lt t u \<Longrightarrow> str_lt s u"
proof (induction s t arbitrary: u rule: str_lt.induct)
  case 1
  then show ?case by simp
next
  case (2 y ys)
  then show ?case by (cases u) simp_all
next
  case (3 x xs)
  then show ?case by simp
next
  case (4 x xs y ys)
  show ?case
  proof (cases u)
    case Nil
    with 4 show ?thesis by simp
  next
    case (Cons z zs)
    with 4 show ?thesis
      by (auto split: if_splits)
  qed
qed

lemma str_lt_total: "str_lt s t \<or> s = t \<or> str_lt t s"
proof (induction s t rule: str_lt.induct)
  case (4 x xs y ys)
  have "(of_char x :: nat) = of_char y \<Longrightarrow> x = y"
    by simp
  with 4 show ?case
    by (cases "(of_char x :: nat) < of_char y"; cases "(of_char y :: nat) < of_char x") auto
qed simp_all

lemma num_lt_irrefl: "\<not> num_lt u u"
  by (cases u) simp_all

lemma num_lt_trans: "num_lt u v \<Longrightarrow> num_lt v w \<Longrightarrow> num_lt u w"
  by (cases u; cases v; cases w) simp_all

lemma num_lt_total: "u \<noteq> NaN \<Longrightarrow> v \<noteq> NaN \<Longrightarrow> num_lt u v \<or> u = v \<or> num_lt v u"
  by (cases u; cases v) auto

section \<open>Evaluation of the examples\<close>

lemmas example_defs =
  tn_NaN_def insertion_host_def binary_insertion_host_def user_def john_def jane_def bob_def
  alice_def charlie_def sampleUsers_def plain_column_def react_element_def contact_column_def
  userColumns_def item_def glue_def stockList_def stockColumns_def table_props_def fruit_def

lemmas engine_defs =
  compareFn_def findColumn_def sortValue_def getField_def js_lt_def js_gt_def
  toLowerCase_def lower_char_def sortedData_def Let_def

section \<open>Stability of the sort\<close>

lemma compareFn_strings:
  assumes "typeof_string (sortValue (findColumn cols k) k a)"
    and "typeof_string (sortValue (findColumn cols k) k b)"
  shows "compareFn H cols k d a b =
           (if str_lt (string_key cols k a) (string_key cols k b) then - (if d = Asc then 1 else - 1)
            else if str_lt (string_key cols k b) (string_key cols k a) then (if d = Asc then 1 else - 1)
            else 0)"
proof -
  obtain x where x: "sortValue (findColumn cols k) k a = Prim (Str x)"
    using assms(1) by (cases "sortValue (findColumn cols k) k a" rule: typeof_string.cases) simp_all
  obtain y where y: "sortValue (findColumn cols k) k b = Prim (Str y)"
    using assms(2) by (cases "sortValue (findColumn cols k) k b" rule: typeof_string.cases) simp_all
  show ?thesis
    by (simp add: compareFn_def Let_def js_lt_def js_gt_def string_key_def x y)
qed

lemma compareFn_consistent_strings:
  assumes "list_all (\<lambda>r. typeof_string (sortValue (findColumn cols k) k r)) dat"
  shows "consistent (compareFn H cols k d) dat"
proof (rule consistent_three_way [where f = "string_key cols k" and lt = str_lt
      and s = "if d = Asc then 1 else - 1" and D = "\<lambda>u. True"])
  fix a b
  assume "a \<in> set dat" "b \<in> set dat"
  with assms have "typeof_string (sortValue (findColumn cols k) k a)"
    and "typeof_string (sortValue (findColumn cols k) k b)"
    by (simp_all add: list_all_iff)
  then show "compareFn H cols k d a b =
           (if str_lt (string_key cols k a) (string_key cols k b) then - (if d = Asc then 1 else - 1)
            else if str_lt (string_key cols k b) (string_key cols k a) then (if d = Asc then 1 else - 1)
            else 0)"
    by (rule compareFn_strings)
next
  show "(if d = Asc then 1 else - 1) = (1 :: int) \<or> (if d = Asc then 1 else - 1) = (- 1 :: int)"
    by simp
next
  fix u v w :: string
  show "str_lt u v \<Longrightarrow> str_lt v w \<Longrightarrow> str_lt u w"
    by (rule str_lt_trans)
  show "\<not> str_lt u u"
    by (rule str_lt_irrefl)
  show "str_lt u v \<or> u = v \<or> str_lt v u"
    by (rule str_lt_total)
qed simp

lemma compareFn_numbers:
  assumes "is_ordered_number (sortValue (findColumn cols k) k a)"
    and "is_ordered_number (sortValue (findColumn cols k) k b)"
  shows "compareFn H cols k d a b =
           (if num_lt (number_key cols k a) (number_key cols k b) then - (if d = Asc then 1 else - 1)
            else if num_lt (number_key cols k b) (number_key cols k a) then (if d = Asc then 1 else - 1)
            else 0)"
proof -
  obtain x where x: "sortValue (findColumn cols k) k a = Prim (Num x)"
    using assms(1)
    by (cases "sortValue (findColumn cols k) k a" rule: is_ordered_number.cases) simp_all
  obtain y where y: "sortValue (findColumn cols k) k b = Prim (Num y)"
    using assms(2)
    by (cases "sortValue (findColumn cols k) k b" rule: is_ordered_number.cases) simp_all
  show ?thesis
    by (simp add: compareFn_def Let_def js_lt_def js_gt_def number_key_def x y)
qed

lemma compareFn_consistent_numbers:
  assumes "list_all (\<lambda>r. is_ordered_number (sortValue (findColumn cols k) k r)) dat"
  shows "consistent (compareFn H cols k d) dat"
proof (rule consistent_three_way [where f = "number_key cols k" and lt = num_lt
      and s = "if d = Asc then 1 else - 1" and D = "\<lambda>u. u \<noteq> NaN"])
  fix a b
  assume "a \<in> set dat" "b \<in> set dat"
  with assms have "is_ordered_number (sortValue (findColumn cols k) k a)"
    and "is_ordered_number (sortValue (findColumn cols k) k b)"
    by (simp_all add: list_all_iff)
  then show "compareFn H cols k d a b =
           (if num_lt (number_key cols k a) (number_key cols k b) then - (if d = Asc then 1 else - 1)
            else if num_lt (number_key cols k b) (number_key cols k a) then (if d = Asc then 1 else - 1)
            else 0)"
    by (rule compareFn_numbers)
next
  show "(if d = Asc then 1 else - 1) = (1 :: int) \<or> (if d = Asc then 1 else - 1) = (- 1 :: int)"
    by simp
next
  fix a
  assume "a \<in> set dat"
  with assms have "is_ordered_number (sortValue (findColumn cols k) k a)"
    by (simp add: list_all_iff)
  then show "number_key cols k a \<noteq> NaN"
    by (cases "sortValue (findColumn cols k) k a" rule: is_ordered_number.cases)
       (simp_all add: number_key_def)
next
  fix u v w :: jsnum
  show "num_lt u v \<Longrightarrow> num_lt v w \<Longrightarrow> num_lt u w"
    by (rule num_lt_trans)
  show "\<not> num_lt u u"
    by (rule num_lt_irrefl)
  show "u \<noteq> NaN \<Longrightarrow> v \<noteq> NaN \<Longrightarrow> num_lt u v \<or> u = v \<or> num_lt v u"
    by (rule num_lt_total)
qed

text \<open>
  On the stock list, sorted by stock on the host that sorts by binary insertion (a host
  that sorts as ECMAScript requires), the two items with stock 5 change places: the run
  Pens, Ink, Paper, Clips, Glue, Tape, Pins never descends (the item without stock
  compares equal to every other), and Tags is then found to be less than Clips, Ink and
  Pens, and is put first. The comparator is not consistent on this list: Tape compares
  equal to Glue and Glue to Pens, but Tape is less than Pens.
\<close>

theorem sortedData_stable_counterexample:
  "host_ok binary_insertion_host
   \<and> \<not> consistent (compareFn binary_insertion_host stockColumns ''stock'' Asc) stockList
   \<and> compareFn binary_insertion_host stockColumns ''stock'' Asc
        (item ''Tape'' 5) (item ''Tags'' 5) = 0
   \<and> filter (is_either (item ''Tape'' 5) (item ''Tags'' 5)) stockList
       = [item ''Tape'' 5, item ''Tags'' 5]
   \<and> filter (is_either (item ''Tape'' 5) (item ''Tags'' 5))
        (sortedData binary_insertion_host stockList stockColumns (Some ''stock'') (Some Asc))
       = [item ''Tags'' 5, item ''Tape'' 5]"
proof -
  have v: "sortedData binary_insertion_host stockList stockColumns (Some ''stock'') (Some Asc)
     = [item ''Tags'' 5, item ''Pens'' 9, item ''Ink'' 10, item ''Paper'' 11, item ''Clips'' 12,
        glue, item ''Tape'' 5, item ''Pins'' 6]"
    by (simp add: example_defs engine_defs binary_insertion_sort_def binary_insert_def
        binary_search.simps)
  have c: "compareFn binary_insertion_host stockColumns ''stock'' Asc
             (item ''Tape'' 5) (item ''Tags'' 5) = 0"
    by (simp add: example_defs engine_defs)
  have i: "filter (is_either (item ''Tape'' 5) (item ''Tags'' 5)) stockList
             = [item ''Tape'' 5, item ''Tags'' 5]"
    by (simp add: is_either_def stockList_def item_def glue_def)
  have o: "filter (is_either (item ''Tape'' 5) (item ''Tags'' 5))
             [item ''Tags'' 5, item ''Pens'' 9, item ''Ink'' 10, item ''Paper'' 11,
              item ''Clips'' 12, glue, item ''Tape'' 5, item ''Pins'' 6]
             = [item ''Tags'' 5, item ''Tape'' 5]"
    by (simp add: is_either_def item_def glue_def)
  have n: "\<not> consistent (compareFn binary_insertion_host stockColumns ''stock'' Asc) stockList"
  proof
    assume "consistent (compareFn binary_insertion_host stockColumns ''stock'' Asc) stockList"
    then have "compareFn binary_insertion_host stockColumns ''stock'' Asc
                 (item ''Tape'' 5) (item ''Pens'' 9) = 0"
      by (rule consistent_equal_trans [where b = glue])
         (simp_all add: example_defs engine_defs)
    then show False
      by (simp add: example_defs engine_defs)
  qed
  from host_ok_binary_insertion_host n v c i o show ?thesis
    by simp
qed

text \<open>
  C1, for a consistent comparator. On a host that sorts as ECMAScript requires, when
  the comparator is consistent for the rows of the data (as it is when the extracted
  values are all strings, or all numbers other than NaN), the sort is stable: two rows
  for which the comparator returns 0 occur in the sorted view in the order they have in
  the input, and so do the rows with one and the same extracted value; and sorting the
  sorted view again, by the same column in the same direction, returns it unchanged.
\<close>

theorem sortedData_stable:
  assumes "host_ok H"
    and "consistent (compareFn H cols k d) dat"
    and "compareFn H cols k d a b = 0"
  shows "filter (is_either a b) (sortedData H dat cols (Some k) (Some d)) = filter (is_either a b) dat
       \<and> filter (has_sort_value cols k v) (sortedData H dat cols (Some k) (Some d))
           = filter (has_sort_value cols k v) dat
       \<and> sortedData H (sortedData H dat cols (Some k) (Some d)) cols (Some k) (Some d)
           = sortedData H dat cols (Some k) (Some d)"
proof -
  let ?cmp = "compareFn H cols k d"
  have first: "Array_sort H ?cmp dat = stable_sort ?cmp dat"
    using assms(1,2) by (rule host_ok_consistent)
  have "consistent ?cmp (stable_sort ?cmp dat)"
    using assms(2) by (simp add: consistent_stable_sort)
  with assms(1) have second:
    "Array_sort H ?cmp (stable_sort ?cmp dat) = stable_sort ?cmp (stable_sort ?cmp dat)"
    by (rule host_ok_consistent)
  have pair: "\<forall>x \<in> set dat. \<forall>y \<in> set dat. is_either a b x \<and> is_either a b y \<longrightarrow> \<not> 0 < ?cmp x y"
    using assms(3) compareFn_zero_sym [OF assms(3)] compareFn_refl [of H cols k d]
    by (auto simp: is_either_def)
  have two: "filter (is_either a b) (stable_sort ?cmp dat) = filter (is_either a b) dat"
    by (rule filter_stable_sort [OF pair])
  have "\<forall>x \<in> set dat. \<forall>y \<in> set dat.
          has_sort_value cols k v x \<and> has_sort_value cols k v y \<longrightarrow> \<not> 0 < ?cmp x y"
    by (simp add: has_sort_value_def compareFn_same_value)
  then have cls: "filter (has_sort_value cols k v) (stable_sort ?cmp dat)
                    = filter (has_sort_value cols k v) dat"
    by (rule filter_stable_sort)
  have idem: "stable_sort ?cmp (stable_sort ?cmp dat) = stable_sort ?cmp dat"
    by (rule stable_sort_idem) (rule compareFn_anti)
  from first second two cls idem show ?thesis
    by (simp add: sortedData_def)
qed

theorem sortedData_stable_witness:
  "host_ok insertion_host
   \<and> consistent (compareFn insertion_host userColumns ''role'' Asc) sampleUsers
   \<and> compareFn insertion_host userColumns ''role'' Asc john charlie = 0
   \<and> filter (is_either john charlie)
        (sortedData insertion_host sampleUsers userColumns (Some ''role'') (Some Asc))
       = [john, charlie]
   \<and> filter (has_sort_value userColumns ''role'' (Prim (Str ''User'')))
        (sortedData insertion_host sampleUsers userColumns (Some ''role'') (Some Asc))
       = [jane, alice]
   \<and> sortedData insertion_host [john, charlie, bob, jane, alice] userColumns
        (Some ''role'') (Some Asc)
       = [john, charlie, bob, jane, alice]"
proof -
  have c: "consistent (compareFn insertion_host userColumns ''role'' Asc) sampleUsers"
    by (rule compareFn_consistent_strings)
       (simp add: example_defs findColumn_def sortValue_def getField_def)
  have h: "compareFn insertion_host userColumns ''role'' Asc john charlie = 0"
    by (simp add: example_defs engine_defs)
  have v: "sortedData insertion_host sampleUsers userColumns (Some ''role'') (Some Asc)
             = [john, charlie, bob, jane, alice]"
    by (simp add: example_defs engine_defs)
  have f: "filter (is_either john charlie) sampleUsers = [john, charlie]"
    by (simp add: example_defs is_either_def)
  have g: "filter (has_sort_value userColumns ''role'' (Prim (Str ''User''))) sampleUsers
             = [jane, alice]"
    by (simp add: example_defs has_sort_value_def findColumn_def sortValue_def getField_def)
  show ?thesis
    using host_ok_insertion_host c h v f g
      sortedData_stable [OF host_ok_insertion_host c h, of "Prim (Str ''User'')"]
    by simp
qed

section \<open>Strings are compared without regard to case\<close>

text \<open>
  C7. When the values extracted from two rows are both strings, the comparator is the
  three-way comparison of the two strings in lower case, negated for descending; the
  ascending sort of the rows named banana, Apple, cherry is Apple, banana, cherry, on
  every host that sorts as ECMAScript requires.
\<close>

theorem compareFn_strings_case_insensitive:
  assumes "sortValue (findColumn cols k) k a = Prim (Str x)"
    and "sortValue (findColumn cols k) k b = Prim (Str y)"
  shows "compareFn H cols k d a b =
           (if str_lt (toLowerCase x) (toLowerCase y) then (if d = Asc then - 1 else 1)
            else if str_lt (toLowerCase y) (toLowerCase x) then (if d = Asc then 1 else - 1)
            else 0)
       \<and> (host_ok H \<longrightarrow>
            sortedData H [fruit ''banana'', fruit ''Apple'', fruit ''cherry'']
              [plain_column ''name'' ''Name''] (Some ''name'') (Some Asc)
             = [fruit ''Apple'', fruit ''banana'', fruit ''cherry''])"
proof -
  have general: "compareFn H cols k d a b =
           (if str_lt (toLowerCase x) (toLowerCase y) then (if d = Asc then - 1 else 1)
            else if str_lt (toLowerCase y) (toLowerCase x) then (if d = Asc then 1 else - 1)
            else 0)"
    using assms by (simp add: compareFn_def Let_def js_lt_def js_gt_def)
  have cons: "consistent (compareFn H [plain_column ''name'' ''Name''] ''name'' Asc)
          [fruit ''banana'', fruit ''Apple'', fruit ''cherry'']"
    by (rule compareFn_consistent_strings)
       (simp add: fruit_def plain_column_def findColumn_def sortValue_def getField_def)
  have "Array_sort H (compareFn H [plain_column ''name'' ''Name''] ''name'' Asc)
               [fruit ''banana'', fruit ''Apple'', fruit ''cherry'']
             = stable_sort (compareFn H [plain_column ''name'' ''Name''] ''name'' Asc)
                 [fruit ''banana'', fruit ''Apple'', fruit ''cherry'']"
    if "host_ok H"
    using that cons by (rule host_ok_consistent)
  moreover have "stable_sort (compareFn H [plain_column ''name'' ''Name''] ''name'' Asc)
                   [fruit ''banana'', fruit ''Apple'', fruit ''cherry'']
                 = [fruit ''Apple'', fruit ''banana'', fruit ''cherry'']"
    by (simp add: fruit_def plain_column_def engine_defs)
  ultimately have example: "host_ok H \<longrightarrow>
            sortedData H [fruit ''banana'', fruit ''Apple'', fruit ''cherry'']
              [plain_column ''name'' ''Name''] (Some ''name'') (Some Asc)
             = [fruit ''Apple'', fruit ''banana'', fruit ''cherry'']"
    by (simp add: sortedData_def)
  from general example show ?thesis
    by simp
qed

theorem compareFn_strings_case_insensitive_witness:
  "sortValue (findColumn [plain_column ''name'' ''Name''] ''name'') ''name'' (fruit ''apple'')
     = Prim (Str ''apple'')
   \<and> sortValue (findColumn [plain_column ''name'' ''Name''] ''name'') ''name'' (fruit ''Banana'')
     = Prim (Str ''Banana'')
   \<and> toLowerCase ''Banana'' = ''banana''
   \<and> \<not> str_lt ''apple'' ''Banana''
   \<and> compareFn insertion_host [plain_column ''name'' ''Name''] ''name'' Asc
        (fruit ''apple'') (fruit ''Banana'') = - 1
   \<and> compareFn insertion_host [plain_column ''name'' ''Name''] ''name'' Desc
        (fruit ''apple'') (fruit ''Banana'') = 1
   \<and> host_ok insertion_host
   \<and> sortedData insertion_host [fruit ''banana'', fruit ''Apple'', fruit ''cherry'']
        [plain_column ''name'' ''Name''] (Some ''name'') (Some Asc)
       = [fruit ''Apple'', fruit ''banana'', fruit ''cherry'']"
proof -
  have a: "sortValue (findColumn [plain_column ''name'' ''Name''] ''name'') ''name''
             (fruit ''apple'') = Prim (Str ''apple'')"
    by (simp add: findColumn_def sortValue_def getField_def fruit_def plain_column_def)
  have b: "sortValue (findColumn [plain_column ''name'' ''Name''] ''name'') ''name''
             (fruit ''Banana'') = Prim (Str ''Banana'')"
    by (simp add: findColumn_def sortValue_def getField_def fruit_def plain_column_def)
  have l: "toLowerCase ''Banana'' = ''banana''" "toLowerCase ''apple'' = ''apple''"
    by (simp_all add: toLowerCase_def lower_char_def char_of_def bit_0)
  show ?thesis
    using a b l host_ok_insertion_host
      compareFn_strings_case_insensitive [OF a b, of insertion_host Asc]
      compareFn_strings_case_insensitive [OF a b, of insertion_host Desc]
    by simp
qed

section \<open>No sort column\<close>

text \<open>C9. With no sort column the view is the input data, in its order.\<close>

theorem sortedData_no_column:
  "sortedData H dat cols None d = dat"
  by (simp add: sortedData_def)

section \<open>The view is a permutation of the data, on a copy\<close>

text \<open>
  C10. For data at an address of the store, \<^verbatim>\<open>sortedData\<close> leaves every array that was
  in the store as it was (the data array among them), returns the address of an array
  holding the view, and the view has the rows of the data, each as often as the data
  have it, and so the length of the data.
\<close>

theorem sortedData_store_permutation:
  assumes "host_ok H" and "dat < length h"
  shows "take (length h) (fst (sortedData_store H h dat cols sc sd)) = h
       \<and> snd (sortedData_store H h dat cols sc sd)
           < length (fst (sortedData_store H h dat cols sc sd))
       \<and> fst (sortedData_store H h dat cols sc sd) ! snd (sortedData_store H h dat cols sc sd)
           = sortedData H (h ! dat) cols sc sd
       \<and> mset (sortedData H (h ! dat) cols sc sd) = mset (h ! dat)
       \<and> length (sortedData H (h ! dat) cols sc sd) = length (h ! dat)"
proof -
  have store: "take (length h) (fst (sortedData_store H h dat cols sc sd)) = h
       \<and> snd (sortedData_store H h dat cols sc sd)
           < length (fst (sortedData_store H h dat cols sc sd))
       \<and> fst (sortedData_store H h dat cols sc sd) ! snd (sortedData_store H h dat cols sc sd)
           = sortedData H (h ! dat) cols sc sd"
    using assms(2)
    by (auto simp: sortedData_store_def sortedData_def spread_def sort_in_place_def
        split: option.splits)
  from store mset_sortedData [OF assms(1)] length_sortedData [OF assms(1)] show ?thesis
    by simp
qed

theorem sortedData_store_permutation_witness:
  "host_ok insertion_host
   \<and> (0 :: nat) < length [sampleUsers]
   \<and> sortedData_store insertion_host [sampleUsers] 0 userColumns (Some ''role'') (Some Asc)
       = ([sampleUsers, [john, charlie, bob, jane, alice]], 1)
   \<and> sortedData_store insertion_host [sampleUsers] 0 userColumns None None = ([sampleUsers], 0)"
proof -
  have h: "(0 :: nat) < length [sampleUsers]"
    by simp
  have v: "sortedData insertion_host sampleUsers userColumns (Some ''role'') (Some Asc)
             = [john, charlie, bob, jane, alice]"
    by (simp add: example_defs engine_defs)
  have a: "sortedData_store insertion_host [sampleUsers] 0 userColumns (Some ''role'') (Some Asc)
             = ([sampleUsers,
                 stable_sort (compareFn insertion_host userColumns ''role'' Asc) sampleUsers], 1)"
    by (simp add: sortedData_store_def spread_def sort_in_place_def insertion_host_def)
  have b: "sortedData_store insertion_host [sampleUsers] 0 userColumns None None = ([sampleUsers], 0)"
    by (simp add: sortedData_store_def)
  have s: "sortedData insertion_host sampleUsers userColumns (Some ''role'') (Some Asc)
             = stable_sort (compareFn insertion_host userColumns ''role'' Asc) sampleUsers"
    by (simp add: sortedData_def insertion_host_def)
  show ?thesis
    using host_ok_insertion_host h v a b s
      sortedData_store_permutation [OF host_ok_insertion_host h, of userColumns
        "Some ''role''" "Some Asc"]
    by simp
qed

section \<open>Facts about the selection set\<close>

lemma new_Set_upt_aux: "foldl (\<lambda>s i. Set_add i s) [0 ..< m] [m ..< m + n] = [0 ..< m + n]"
proof (induction n arbitrary: m)
  case 0
  then show ?case by simp
next
  case (Suc n)
  have "[m ..< m + Suc n] = m # [Suc m ..< Suc m + n]"
    by (simp add: upt_conv_Cons)
  moreover have "Set_add m [0 ..< m] = [0 ..< Suc m]"
    by (simp add: Set_add_def)
  ultimately show ?case
    using Suc.IH [of "Suc m"] by simp
qed

lemma new_Set_upt: "new_Set [0 ..< n] = [0 ..< n]"
  using new_Set_upt_aux [of 0 n] by (simp add: new_Set_def)

lemma view_selectedRows_update [simp]: "view H p (s\<lparr>selectedRows := x\<rparr>) = view H p s"
  by (simp add: view_def)



lemma view_nonempty_when_table:
  "host_ok H \<Longrightarrow> render_state p = Table \<Longrightarrow> 0 < length (view H p s)"
  by (simp add: render_state_def length_view split: if_splits)

text \<open>
  The list that stands for the set of selected positions never repeats a position, so
  its length is the size of the set.
\<close>

lemma distinct_Set_add: "distinct s \<Longrightarrow> distinct (Set_add i s)"
  by (simp add: Set_add_def)

lemma distinct_Set_delete: "distinct s \<Longrightarrow> distinct (Set_delete i s)"
  by (simp add: Set_delete_def)

lemma distinct_selectedRows_step:
  assumes "distinct (selectedRows (snd cfg))"
  shows "distinct (selectedRows (snd (step H cfg e)))"
proof (cases cfg)
  case (Pair p s)
  with assms have d: "distinct (selectedRows s)"
    by simp
  show ?thesis
  proof (cases e)
    case (HeaderClick c)
    with Pair d show ?thesis
      by (simp add: handleSort_def)
  next
    case (RowToggle i checked)
    with Pair d show ?thesis
      by (simp add: handleRowSelect_def Let_def distinct_Set_add distinct_Set_delete)
  next
    case (SelectAll checked)
    with Pair show ?thesis
      by (simp add: handleSelectAll_def Let_def new_Set_upt)
  next
    case (NewProps p')
    with Pair d show ?thesis
      by simp
  qed
qed

lemma distinct_selectedRows_foldl:
  "distinct (selectedRows (snd cfg)) \<Longrightarrow> distinct (selectedRows (snd (foldl (step H) cfg es)))"
  by (induction es arbitrary: cfg) (simp_all add: distinct_selectedRows_step)

lemma distinct_selectedRows_run: "distinct (selectedRows (snd (run H p es)))"
  using distinct_selectedRows_foldl [of "(p, initial_state)" H es]
  by (simp add: run_def initial_state_def)

section \<open>Header clicks\<close>

text \<open>
  C2. A click on the header of a sortable column \<open>c\<close> takes no sort to (\<open>c\<close>, ascending),
  (\<open>c\<close>, ascending) to (\<open>c\<close>, descending), (\<open>c\<close>, descending) to no sort and a sort
  by another column to (\<open>c\<close>, ascending); three clicks from no sort give the state
  back, with the data in its original order as the view. A click on the header of a
  column that is not sortable changes neither the state nor the view.
\<close>

theorem handleSort_transitions:
  "(sortable c = Some True \<longrightarrow>
       handleSort (s\<lparr>sortColumn := None, sortDirection := None\<rparr>) c
         = s\<lparr>sortColumn := Some (key c), sortDirection := Some Asc\<rparr>
     \<and> handleSort (s\<lparr>sortColumn := Some (key c), sortDirection := Some Asc\<rparr>) c
         = s\<lparr>sortColumn := Some (key c), sortDirection := Some Desc\<rparr>
     \<and> handleSort (s\<lparr>sortColumn := Some (key c), sortDirection := Some Desc\<rparr>) c
         = s\<lparr>sortColumn := None, sortDirection := None\<rparr>
     \<and> (k \<noteq> key c \<longrightarrow>
          handleSort (s\<lparr>sortColumn := Some k, sortDirection := d\<rparr>) c
            = s\<lparr>sortColumn := Some (key c), sortDirection := Some Asc\<rparr>)
     \<and> (sortColumn s = None \<and> sortDirection s = None \<longrightarrow>
          handleSort (handleSort (handleSort s c) c) c = s
          \<and> view H p (handleSort (handleSort (handleSort s c) c) c) = data p))
   \<and> (sortable c' \<noteq> Some True \<longrightarrow>
        handleSort s c' = s \<and> view H p (handleSort s c') = view H p s)"
  by (simp add: handleSort_def view_def sortedData_def)

theorem handleSort_transitions_witness:
  "sortable (plain_column ''name'' ''Name'') = Some True
   \<and> handleSort initial_state (plain_column ''name'' ''Name'')
       = \<lparr>selectedRows = [], sortColumn = Some ''name'', sortDirection = Some Asc\<rparr>
   \<and> handleSort \<lparr>selectedRows = [], sortColumn = Some ''name'', sortDirection = Some Asc\<rparr>
        (plain_column ''name'' ''Name'')
       = \<lparr>selectedRows = [], sortColumn = Some ''name'', sortDirection = Some Desc\<rparr>
   \<and> handleSort \<lparr>selectedRows = [], sortColumn = Some ''name'', sortDirection = Some Desc\<rparr>
        (plain_column ''name'' ''Name'') = initial_state
   \<and> handleSort \<lparr>selectedRows = [], sortColumn = Some ''email'', sortDirection = Some Desc\<rparr>
        (plain_column ''name'' ''Name'')
       = \<lparr>selectedRows = [], sortColumn = Some ''name'', sortDirection = Some Asc\<rparr>
   \<and> view insertion_host (table_props sampleUsers userColumns)
        (handleSort (handleSort (handleSort initial_state (plain_column ''name'' ''Name''))
           (plain_column ''name'' ''Name'')) (plain_column ''name'' ''Name''))
       = sampleUsers
   \<and> sortable contact_column \<noteq> Some True
   \<and> handleSort initial_state contact_column = initial_state"
  using handleSort_transitions [of "plain_column ''name'' ''Name''" initial_state "''email''"
      "Some Desc" insertion_host "table_props sampleUsers userColumns" contact_column]
  by (simp add: plain_column_def contact_column_def initial_state_def table_props_def
      handleSort_def view_def sortedData_def)

section \<open>The sort state\<close>

lemma sort_state_ok_handleSort: "sort_state_ok s \<Longrightarrow> sort_state_ok (handleSort s c)"
  by (auto simp: sort_state_ok_def handleSort_def)

lemma sort_state_ok_step:
  assumes "sort_state_ok (snd cfg)"
  shows "sort_state_ok (snd (step H cfg e))"
proof (cases cfg)
  case (Pair p s)
  with assms have ok: "sort_state_ok s"
    by simp
  show ?thesis
  proof (cases e)
    case (HeaderClick c)
    with Pair ok show ?thesis
      by (simp add: sort_state_ok_handleSort)
  next
    case (RowToggle i checked)
    with Pair ok show ?thesis
      by (simp add: handleRowSelect_def Let_def sort_state_ok_def)
  next
    case (SelectAll checked)
    with Pair ok show ?thesis
      by (simp add: handleSelectAll_def Let_def sort_state_ok_def)
  next
    case (NewProps p')
    with Pair ok show ?thesis
      by simp
  qed
qed

lemma sort_state_ok_foldl:
  "sort_state_ok (snd cfg) \<Longrightarrow> sort_state_ok (snd (foldl (step H) cfg es))"
  by (induction es arbitrary: cfg) (simp_all add: sort_state_ok_step)

text \<open>
  C8. The sort column and the sort direction are both absent in the initial state, a
  header click keeps them both present or both absent, and so they are after every
  sequence of events.
\<close>

theorem sort_state_invariant:
  "sort_state_ok initial_state
   \<and> (sort_state_ok s \<longrightarrow> sort_state_ok (handleSort s c))
   \<and> sort_state_ok (snd (run H p es))"
proof -
  have "sort_state_ok initial_state"
    by (simp add: sort_state_ok_def initial_state_def)
  then show ?thesis
    using sort_state_ok_foldl [of "(p, initial_state)" H es]
    by (simp add: run_def sort_state_ok_handleSort)
qed

theorem sort_state_invariant_witness:
  "sort_state_ok \<lparr>selectedRows = [], sortColumn = Some ''role'', sortDirection = Some Asc\<rparr>
   \<and> sort_state_ok (handleSort
        \<lparr>selectedRows = [], sortColumn = Some ''role'', sortDirection = Some Asc\<rparr>
        (plain_column ''role'' ''Role''))
   \<and> sort_state_ok (snd (run insertion_host (table_props sampleUsers userColumns)
        [HeaderClick (plain_column ''role'' ''Role''), SelectAll True,
         HeaderClick (plain_column ''name'' ''Name'')]))"
proof -
  have h: "sort_state_ok \<lparr>selectedRows = [], sortColumn = Some ''role'', sortDirection = Some Asc\<rparr>"
    by (simp add: sort_state_ok_def)
  show ?thesis
    using h sort_state_invariant [of
        "\<lparr>selectedRows = [], sortColumn = Some ''role'', sortDirection = Some Asc\<rparr>"
        "plain_column ''role'' ''Role''" insertion_host "table_props sampleUsers userColumns"
        "[HeaderClick (plain_column ''role'' ''Role''), SelectAll True,
          HeaderClick (plain_column ''name'' ''Name'')]"]
    by simp
qed

section \<open>The selection set and the view\<close>










section \<open>Select all\<close>

text \<open>
  C4. The select-all checkbox exists only in the table, which the component returns when
  it is not loading and its data are not empty. Then, on a view of length \<open>N\<close>,
  select-all with \<open>true\<close> makes the selection the positions \<open>0 .. N - 1\<close>, makes
  \<^verbatim>\<open>isAllSelected\<close> true and calls \<^verbatim>\<open>onRowSelect\<close> with the \<open>N\<close> rows of the view in view
  order; select-all with \<open>false\<close> empties the selection and calls \<^verbatim>\<open>onRowSelect\<close> with
  the empty list.
\<close>

theorem handleSelectAll_consistent:
  assumes "host_ok H" and "render_state p = Table" and "onRowSelect p = Some f"
  shows "selectedRows (fst (handleSelectAll H p s True)) = [0 ..< length (view H p s)]
       \<and> view H p (fst (handleSelectAll H p s True)) = view H p s
       \<and> isAllSelected H p (fst (handleSelectAll H p s True))
       \<and> snd (handleSelectAll H p s True) = Some (f (map Some (view H p s)))
       \<and> selectedRows (fst (handleSelectAll H p s False)) = []
       \<and> snd (handleSelectAll H p s False) = Some (f [])"
proof -
  have "0 < length (view H p s)"
    using assms(1,2) by (rule view_nonempty_when_table)
  with assms(3) show ?thesis
    by (simp add: handleSelectAll_def Let_def new_Set_upt isAllSelected_def optional_call_def)
qed

theorem handleSelectAll_consistent_witness:
  "host_ok insertion_host
   \<and> render_state (table_props sampleUsers userColumns) = Table
   \<and> onRowSelect (table_props sampleUsers userColumns) = Some id
   \<and> selectedRows (fst (handleSelectAll insertion_host (table_props sampleUsers userColumns)
        \<lparr>selectedRows = [], sortColumn = Some ''role'', sortDirection = Some Asc\<rparr> True))
       = [0, 1, 2, 3, 4]
   \<and> isAllSelected insertion_host (table_props sampleUsers userColumns)
        (fst (handleSelectAll insertion_host (table_props sampleUsers userColumns)
           \<lparr>selectedRows = [], sortColumn = Some ''role'', sortDirection = Some Asc\<rparr> True))
   \<and> snd (handleSelectAll insertion_host (table_props sampleUsers userColumns)
        \<lparr>selectedRows = [], sortColumn = Some ''role'', sortDirection = Some Asc\<rparr> True)
       = Some [Some john, Some charlie, Some bob, Some jane, Some alice]
   \<and> snd (handleSelectAll insertion_host (table_props sampleUsers userColumns)
        \<lparr>selectedRows = [3], sortColumn = Some ''role'', sortDirection = Some Asc\<rparr> False)
       = Some []"
proof -
  have t: "render_state (table_props sampleUsers userColumns) = Table"
    by (simp add: render_state_def table_props_def sampleUsers_def)
  have h: "onRowSelect (table_props sampleUsers userColumns) = Some id"
    by (simp add: table_props_def)
  have v: "view insertion_host (table_props sampleUsers userColumns)
             \<lparr>selectedRows = [], sortColumn = Some ''role'', sortDirection = Some Asc\<rparr>
           = [john, charlie, bob, jane, alice]"
    by (simp add: view_def table_props_def example_defs engine_defs)
  have n: "[0 ..< 5] = [0, 1, 2, 3, 4 :: nat]"
    by (simp add: upt_conv_Cons)
  show ?thesis
    using host_ok_insertion_host t h v n
      handleSelectAll_consistent [OF host_ok_insertion_host t h, of
        "\<lparr>selectedRows = [], sortColumn = Some ''role'', sortDirection = Some Asc\<rparr>"]
      handleSelectAll_consistent [OF host_ok_insertion_host t h, of
        "\<lparr>selectedRows = [3], sortColumn = Some ''role'', sortDirection = Some Asc\<rparr>"]
    by simp
qed

section \<open>What the callback receives\<close>




section \<open>The select-all checkbox\<close>

text \<open>
  C6. \<^verbatim>\<open>isAllSelected\<close> is: the selection is non-empty and has as many positions as the
  view has rows. \<^verbatim>\<open>isIndeterminate\<close> (the partial selection) is: the selection is
  non-empty and has fewer positions than the view has rows. With one position selected
  in a view of five rows the selection is partial and not all.
\<close>

theorem selection_indicators:
  "(isAllSelected H p s \<longleftrightarrow>
      selectedRows s \<noteq> [] \<and> length (selectedRows s) = length (view H p s))
   \<and> (isIndeterminate H p s \<longleftrightarrow>
      selectedRows s \<noteq> [] \<and> length (selectedRows s) < length (view H p s))
   \<and> (length (selectedRows s) = 1 \<and> length (view H p s) = 5 \<longrightarrow>
        isIndeterminate H p s \<and> \<not> isAllSelected H p s)"
  by (auto simp: isAllSelected_def isIndeterminate_def)

theorem selection_indicators_witness:
  "selectedRows (fst (handleRowSelect insertion_host (table_props sampleUsers userColumns)
      initial_state 2 True)) = [2]
   \<and> length (view insertion_host (table_props sampleUsers userColumns)
        (fst (handleRowSelect insertion_host (table_props sampleUsers userColumns)
           initial_state 2 True))) = 5
   \<and> isIndeterminate insertion_host (table_props sampleUsers userColumns)
        (fst (handleRowSelect insertion_host (table_props sampleUsers userColumns) initial_state 2 True))
   \<and> \<not> isAllSelected insertion_host (table_props sampleUsers userColumns)
        (fst (handleRowSelect insertion_host (table_props sampleUsers userColumns) initial_state 2 True))"
proof -
  have a: "selectedRows (fst (handleRowSelect insertion_host (table_props sampleUsers userColumns)
      initial_state 2 True)) = [2]"
    by (simp add: handleRowSelect_def Let_def Set_add_def initial_state_def)
  have b: "length (view insertion_host (table_props sampleUsers userColumns)
        (fst (handleRowSelect insertion_host (table_props sampleUsers userColumns)
           initial_state 2 True))) = 5"
    by (simp add: length_view [OF host_ok_insertion_host] table_props_def sampleUsers_def)
  show ?thesis
    using a b
      selection_indicators [of insertion_host "table_props sampleUsers userColumns"
        "fst (handleRowSelect insertion_host (table_props sampleUsers userColumns) initial_state 2 True)"]
    by simp
qed

end
